theory Spec2Isabelle
  imports Main
begin

section \<open>The line height manager: data model\<close>

text \<open>
  The class \<open>LineHeightManager\<close> keeps \<open>SpecialLine\<close> objects that are shared between
  the map \<open>_decorationIDToSpecialLine\<close>, the array \<open>_orderedSpecialLines\<close> and the array
  \<open>_pendingSpecialLinesToInsert\<close>, and it mutates them through any of the three. The
  embedding therefore has an explicit object store: \<open>heap\<close> is the list of all objects
  created by \<open>new SpecialLine\<close>, a reference is the position of the object in that list,
  and the map and the arrays hold references.

  A JavaScript number is an IEEE-754 double. The embedding covers the numbers with an
  integer value: line numbers, heights and indices are of type \<open>int\<close>, and every
  \<open>+\<close>, \<open>-\<close> and \<open>*\<close> of the source on line numbers and heights rounds its exact
  result to the nearest double (\<open>add64\<close>, \<open>sub64\<close>, \<open>mul64\<close> below), so that a result
  beyond \<open>2^53\<close> is what the code computes. Heights with a fractional part are outside
  the embedding, and so is the overflow to \<open>Infinity\<close> beyond the largest double. Array
  indices and loop counters stay below the length of an array, where the arithmetic of
  doubles is exact; they are computed with the operations of \<open>int\<close>. The field
  \<open>_invalidIndex\<close> is the only one that also takes the value \<open>Infinity\<close>.

  An array element can be \<open>undefined\<close> (the first loop of \<open>commit\<close> pushes
  \<open>this._orderedSpecialLines[i]\<close> without looking at the length), so the ordered array is
  a list of optional references, \<open>None\<close> standing for \<open>undefined\<close>. Reading a property of
  \<open>undefined\<close> throws a \<open>TypeError\<close>, which is the only exception the code can raise.
\<close>

datatype error = TypeError | NonTermination

record SpecialLine =
  index :: int
  lineNumber :: int
  specialHeight :: int
  prefixSum :: int
  maximumSpecialHeight :: int
  decorationId :: string
  deleted :: bool

type_synonym ref = nat

datatype number = Finite int | Infinity

record LineHeightManager =
  heap :: "SpecialLine list"
  decorationIDToSpecialLine :: "string \<rightharpoonup> ref"
  orderedSpecialLines :: "ref option list"
  pendingSpecialLinesToInsert :: "ref list"
  invalidIndex :: number
  defaultLineHeight :: int
  hasPending :: bool

text \<open>\<open>new SpecialLine(decorationId, index, lineNumber, specialHeight, prefixSum)\<close>.\<close>

definition newSpecialLine :: "string \<Rightarrow> int \<Rightarrow> int \<Rightarrow> int \<Rightarrow> int \<Rightarrow> SpecialLine" where
  "newSpecialLine did idx ln sh ps =
     \<lparr>index = idx, lineNumber = ln, specialHeight = sh, prefixSum = ps,
      maximumSpecialHeight = sh, decorationId = did, deleted = False\<rparr>"

text \<open>\<open>new LineHeightManager(defaultLineHeight)\<close>.\<close>

definition newLineHeightManager :: "int \<Rightarrow> LineHeightManager" where
  "newLineHeightManager d =
     \<lparr>heap = [], decorationIDToSpecialLine = Map.empty, orderedSpecialLines = [],
      pendingSpecialLinesToInsert = [], invalidIndex = Finite 0, defaultLineHeight = d,
      hasPending = False\<rparr>"

definition set_defaultLineHeight :: "int \<Rightarrow> LineHeightManager \<Rightarrow> LineHeightManager" where
  "set_defaultLineHeight d s = s\<lparr>defaultLineHeight := d\<rparr>"

subsection \<open>Arithmetic of numbers\<close>

text \<open>The number of binary digits of a positive integer.\<close>

function bitLength :: "int \<Rightarrow> nat" where
  "bitLength x = (if x \<le> 0 then 0 else Suc (bitLength (x div 2)))"
  by pat_completeness auto
termination
  by (relation "measure nat") auto

text \<open>Up to this magnitude every integer is a double.\<close>

definition exactLimit :: int where
  "exactLimit = 2 ^ 53"

text \<open>
  The double nearest to an integer: up to \<open>2^53\<close> in magnitude the integer itself;
  beyond, the doubles are the multiples of \<open>q = 2^(bitLength - 53)\<close>, and the integer is
  rounded to the nearest multiple, a tie going to the multiple with the even 53-bit
  significand (the rounding mode of JavaScript).
\<close>

definition round64 :: "int \<Rightarrow> int" where
  "round64 x =
     (if \<bar>x\<bar> \<le> exactLimit then x
      else
        (let q = 2 ^ (bitLength \<bar>x\<bar> - 53);
             m = \<bar>x\<bar> div q;
             r = \<bar>x\<bar> mod q;
             m' = (if 2 * r < q then m
                   else if q < 2 * r then m + 1
                   else if even m then m else m + 1)
         in sgn x * (m' * q)))"

text \<open>The operators \<open>+\<close>, \<open>-\<close> and \<open>*\<close> of JavaScript on integer-valued numbers.\<close>

definition add64 :: "int \<Rightarrow> int \<Rightarrow> int" where
  "add64 a b = round64 (a + b)"

definition sub64 :: "int \<Rightarrow> int \<Rightarrow> int" where
  "sub64 a b = round64 (a - b)"

definition mul64 :: "int \<Rightarrow> int \<Rightarrow> int" where
  "mul64 a b = round64 (a * b)"

subsection \<open>JavaScript primitives\<close>

text \<open>\<open>Math.min(this._invalidIndex, x)\<close> with a finite \<open>x\<close>.\<close>

fun math_min :: "number \<Rightarrow> int \<Rightarrow> number" where
  "math_min Infinity x = Finite x"
| "math_min (Finite a) x = Finite (min a x)"

text \<open>\<open>xs[i]\<close>: \<open>undefined\<close> outside the array (also at a negative index).\<close>

definition at :: "'a option list \<Rightarrow> int \<Rightarrow> 'a option" where
  "at xs i = (if 0 \<le> i \<and> i < int (length xs) then xs ! nat i else None)"

text \<open>
  \<open>xs.splice(start, deleteCount, ...items)\<close>: a negative start counts from the end of
  the array, and the number of deleted elements is clamped to what is there.
\<close>

definition splice :: "'a list \<Rightarrow> int \<Rightarrow> int \<Rightarrow> 'a list \<Rightarrow> 'a list" where
  "splice xs start deleteCount items =
     (let len = int (length xs);
          actualStart = (if start < 0 then max (len + start) 0 else min start len);
          actualDeleteCount = min (max deleteCount 0) (len - actualStart)
      in take (nat actualStart) xs @ items @ drop (nat (actualStart + actualDeleteCount)) xs)"

text \<open>Assignment to the fields of the object behind a reference.\<close>

definition modify :: "SpecialLine list \<Rightarrow> ref \<Rightarrow> (SpecialLine \<Rightarrow> SpecialLine) \<Rightarrow> SpecialLine list" where
  "modify h r f = h[r := f (h ! r)]"

subsection \<open>Binary search\<close>

text \<open>
  Modelled from the spec: \<open>binarySearch2\<close> of \<open>base/common/arrays\<close> is imported by the
  class and is not among the sources. The spec says that it takes a three-way comparator
  and returns a non-negative index on an exact match, or \<open>-(insertionIndex + 1)\<close> on a
  miss. The model is the usual halving loop over \<open>low\<close> and \<open>high\<close>; the comparator is
  the closure of \<open>_binarySearchOverSpecialLinesArray\<close>, which can throw.
\<close>

function binarySearch2_loop :: "(int \<Rightarrow> error + int) \<Rightarrow> int \<Rightarrow> int \<Rightarrow> error + int" where
  "binarySearch2_loop compareToKey low high =
     (if low \<le> high then
        (let mid = (low + high) div 2 in
         case compareToKey mid of
           Inl e \<Rightarrow> Inl e
         | Inr comp' \<Rightarrow>
             if comp' < 0 then binarySearch2_loop compareToKey (mid + 1) high
             else if comp' > 0 then binarySearch2_loop compareToKey low (mid - 1)
             else Inr mid)
      else Inr (- (low + 1)))"
  by pat_completeness auto
termination
  by (relation "measure (\<lambda>(c, low, high). nat (high + 1 - low))") auto

definition binarySearch2 :: "int \<Rightarrow> (int \<Rightarrow> error + int) \<Rightarrow> error + int" where
  "binarySearch2 len compareToKey = binarySearch2_loop compareToKey 0 (len - 1)"

text \<open>The comparator of \<open>_binarySearchOverSpecialLinesArray\<close>.\<close>

definition compareLine :: "SpecialLine list \<Rightarrow> ref option list \<Rightarrow> int \<Rightarrow> int \<Rightarrow> error + int" where
  "compareLine h ordered ln i =
     (case at ordered i of
        None \<Rightarrow> Inl TypeError
      | Some r \<Rightarrow>
          if lineNumber (h ! r) = ln then Inr 0
          else if lineNumber (h ! r) < ln then Inr (- 1)
          else Inr 1)"

definition binarySearchOverSpecialLinesArray ::
  "SpecialLine list \<Rightarrow> ref option list \<Rightarrow> int \<Rightarrow> error + int" where
  "binarySearchOverSpecialLinesArray h ordered ln =
     binarySearch2 (int (length ordered)) (compareLine h ordered ln)"

section \<open>Mutation entry points\<close>

definition removeSpecialLineUsingDecoration :: "string \<Rightarrow> LineHeightManager \<Rightarrow> LineHeightManager" where
  "removeSpecialLineUsingDecoration did s =
     (case decorationIDToSpecialLine s did of
        None \<Rightarrow> s
      | Some r \<Rightarrow>
          s\<lparr>decorationIDToSpecialLine := (decorationIDToSpecialLine s)(did := None),
            heap := modify (heap s) r (\<lambda>l. l\<lparr>deleted := True\<rparr>),
            invalidIndex := math_min (invalidIndex s) (index (heap s ! r)),
            hasPending := True\<rparr>)"

definition insertSpecialLineHeight :: "string \<Rightarrow> int \<Rightarrow> int \<Rightarrow> LineHeightManager \<Rightarrow> LineHeightManager" where
  "insertSpecialLineHeight did ln sh s =
     s\<lparr>heap := heap s @ [newSpecialLine did (- 1) ln sh 0],
       pendingSpecialLinesToInsert := pendingSpecialLinesToInsert s @ [length (heap s)],
       hasPending := True\<rparr>"

definition insertOrChangeSpecialLineHeightUsingDecoration ::
  "string \<Rightarrow> int \<Rightarrow> int \<Rightarrow> LineHeightManager \<Rightarrow> LineHeightManager" where
  "insertOrChangeSpecialLineHeightUsingDecoration did ln lh s =
     (case decorationIDToSpecialLine s did of
        None \<Rightarrow> insertSpecialLineHeight did ln lh s
      | Some r \<Rightarrow>
          s\<lparr>heap := modify (modify (heap s) r (\<lambda>l. l\<lparr>lineNumber := ln\<rparr>)) r
                      (\<lambda>l. l\<lparr>specialHeight := lh\<rparr>),
            invalidIndex := math_min (invalidIndex s) (index (heap s ! r)),
            hasPending := True\<rparr>)"

definition mustCommit :: "LineHeightManager \<Rightarrow> bool" where
  "mustCommit s = hasPending s"

section \<open>Commit\<close>

text \<open>
  The loop over \<open>_pendingSpecialLinesToInsert\<close>: each pending object is spliced into the
  ordered array at the index the binary search gives for its line number, and the invalid
  index is lowered to that index.
\<close>

fun mergePending ::
  "SpecialLine list \<Rightarrow> ref list \<Rightarrow> ref option list \<Rightarrow> number \<Rightarrow> error + (ref option list \<times> number)" where
  "mergePending h [] ordered invalid = Inr (ordered, invalid)"
| "mergePending h (pendingChange # rest) ordered invalid =
     (case binarySearchOverSpecialLinesArray h ordered (lineNumber (h ! pendingChange)) of
        Inl e \<Rightarrow> Inl e
      | Inr searchIndex \<Rightarrow>
          (let modifiedSearchInde = (if searchIndex \<ge> 0 then searchIndex else - (searchIndex + 1))
           in mergePending h rest
                (splice ordered modifiedSearchInde 0 [Some pendingChange])
                (math_min invalid modifiedSearchInde)))"

text \<open>
  The first loop, \<open>for (let i = 0; i < this._invalidIndex; i++)\<close>, copies the elements
  below the invalid index as they are; an index beyond the array yields \<open>undefined\<close>,
  which is pushed too. With \<open>_invalidIndex = Infinity\<close> the loop has no bound: that
  outcome is the error value \<open>NonTermination\<close>.
\<close>

definition copyPrefix :: "ref option list \<Rightarrow> number \<Rightarrow> error + ref option list" where
  "copyPrefix ordered invalid =
     (case invalid of
        Infinity \<Rightarrow> Inl NonTermination
      | Finite k \<Rightarrow> Inr (map (\<lambda>i. at ordered (int i)) [0 ..< nat k]))"

text \<open>
  The inner loop over \<open>j\<close> that computes the maximum of the special heights of the
  records following position \<open>i\<close> with the line number \<open>ln\<close>, skipping deleted ones.
\<close>

function maximumLoop :: "SpecialLine list \<Rightarrow> ref option list \<Rightarrow> int \<Rightarrow> int \<Rightarrow> int \<Rightarrow> error + int" where
  "maximumLoop h ordered ln j maximumSpecialHeight' =
     (if j < int (length ordered) then
        (case at ordered j of
           None \<Rightarrow> Inl TypeError
         | Some nextSpecialLine \<Rightarrow>
             if deleted (h ! nextSpecialLine) then
               maximumLoop h ordered ln (j + 1) maximumSpecialHeight'
             else if lineNumber (h ! nextSpecialLine) \<noteq> ln then Inr maximumSpecialHeight'
             else maximumLoop h ordered ln (j + 1)
                    (max maximumSpecialHeight' (specialHeight (h ! nextSpecialLine))))
      else Inr maximumSpecialHeight')"
  by pat_completeness auto
termination
  by (relation "measure (\<lambda>(h, ordered, ln, j, m). nat (int (length ordered) - j))") auto

text \<open>
  The \<open>else\<close> branch of the loop body: the record starts a new run. Its maximum is
  computed by the inner loop and its prefix sum from \<open>previousSpecialLine\<close>, which is the
  element at \<open>i - 1\<close> of the array being walked (deleted or not), when there is one.
\<close>

definition startNewRun ::
  "int \<Rightarrow> ref option list \<Rightarrow> int \<Rightarrow> ref \<Rightarrow> ref option \<Rightarrow> SpecialLine list \<Rightarrow> error + SpecialLine list" where
  "startNewRun d ordered i r previousSpecialLine h =
     (case maximumLoop h ordered (lineNumber (h ! r)) i (specialHeight (h ! r)) of
        Inl e \<Rightarrow> Inl e
      | Inr m \<Rightarrow>
          (let h1 = modify h r (\<lambda>l. l\<lparr>maximumSpecialHeight := m\<rparr>);
               prefixSum' =
                 (case previousSpecialLine of
                    Some p \<Rightarrow>
                      add64 (add64 (prefixSum (h1 ! p)) (maximumSpecialHeight (h1 ! p)))
                        (mul64 d (sub64 (sub64 (lineNumber (h1 ! r)) (lineNumber (h1 ! p))) 1))
                  | None \<Rightarrow> mul64 d (sub64 (lineNumber (h1 ! r)) 1))
           in Inr (modify h1 r (\<lambda>l. l\<lparr>prefixSum := prefixSum'\<rparr>))))"

definition recomputeSpecialLine ::
  "int \<Rightarrow> ref option list \<Rightarrow> int \<Rightarrow> ref \<Rightarrow> ref option \<Rightarrow> SpecialLine list \<Rightarrow> error + SpecialLine list" where
  "recomputeSpecialLine d ordered i r previousSpecialLine h =
     (case previousSpecialLine of
        None \<Rightarrow> startNewRun d ordered i r None h
      | Some p \<Rightarrow>
          if lineNumber (h ! p) = lineNumber (h ! r) then
            (let h1 = modify h r (\<lambda>l. l\<lparr>maximumSpecialHeight := maximumSpecialHeight (h ! p)\<rparr>)
             in Inr (modify h1 r (\<lambda>l. l\<lparr>prefixSum := prefixSum (h1 ! p)\<rparr>)))
          else startNewRun d ordered i r (Some p) h)"

text \<open>
  The second loop, from the invalid index to the end of the array. The local state is
  \<open>i\<close>, \<open>numberOfDeletions\<close>, the store, \<open>newOrderedSpecialLines\<close> and
  \<open>newDecorationIDToSpecialLineMap\<close>.
\<close>

function commitLoop ::
  "int \<Rightarrow> ref option list \<Rightarrow> int \<Rightarrow> int \<Rightarrow> SpecialLine list \<Rightarrow> ref option list \<Rightarrow> (string \<rightharpoonup> ref)
     \<Rightarrow> error + (SpecialLine list \<times> ref option list \<times> (string \<rightharpoonup> ref))" where
  "commitLoop d ordered i numberOfDeletions h newOrdered newMap =
     (if i < int (length ordered) then
        (case at ordered i of
           None \<Rightarrow> Inl TypeError
         | Some r \<Rightarrow>
             if deleted (h ! r) then
               commitLoop d ordered (i + 1) (numberOfDeletions + 1) h newOrdered newMap
             else
               (let previousSpecialLine = (if i > 0 then at ordered (i - 1) else None);
                    h1 = modify h r (\<lambda>l. l\<lparr>index := i - numberOfDeletions\<rparr>)
                in case recomputeSpecialLine d ordered i r previousSpecialLine h1 of
                     Inl e \<Rightarrow> Inl e
                   | Inr h2 \<Rightarrow>
                       commitLoop d ordered (i + 1) numberOfDeletions h2
                         (newOrdered @ [Some r])
                         (newMap(decorationId (h2 ! r) \<mapsto> r))))
      else Inr (h, newOrdered, newMap))"
  by pat_completeness auto
termination
  by (relation "measure (\<lambda>(d, ordered, i, n, h, no, nm). nat (int (length ordered) - i))") auto

definition commit :: "LineHeightManager \<Rightarrow> error + LineHeightManager" where
  "commit s =
     (if \<not> hasPending s then Inr s
      else
        case mergePending (heap s) (pendingSpecialLinesToInsert s) (orderedSpecialLines s)
               (invalidIndex s) of
          Inl e \<Rightarrow> Inl e
        | Inr (ordered, invalid) \<Rightarrow>
            (case copyPrefix ordered invalid of
               Inl e \<Rightarrow> Inl e
             | Inr newOrdered \<Rightarrow>
                 (case commitLoop (defaultLineHeight s) ordered
                         (case invalid of Finite k \<Rightarrow> k | Infinity \<Rightarrow> 0) 0 (heap s) newOrdered
                         (decorationIDToSpecialLine s) of
                    Inl e \<Rightarrow> Inl e
                  | Inr (h, newOrdered', newMap) \<Rightarrow>
                      Inr (s\<lparr>heap := h,
                             decorationIDToSpecialLine := newMap,
                             orderedSpecialLines := newOrdered',
                             pendingSpecialLinesToInsert := [],
                             invalidIndex := Infinity,
                             hasPending := False\<rparr>))))"

section \<open>Queries\<close>

definition heightForLineNumber :: "int \<Rightarrow> LineHeightManager \<Rightarrow> error + (int \<times> LineHeightManager)" where
  "heightForLineNumber ln s =
     (case commit s of
        Inl e \<Rightarrow> Inl e
      | Inr s1 \<Rightarrow>
          (case binarySearchOverSpecialLinesArray (heap s1) (orderedSpecialLines s1) ln of
             Inl e \<Rightarrow> Inl e
           | Inr searchIndex \<Rightarrow>
               if searchIndex \<ge> 0 then
                 (case at (orderedSpecialLines s1) searchIndex of
                    None \<Rightarrow> Inl TypeError
                  | Some r \<Rightarrow> Inr (maximumSpecialHeight (heap s1 ! r), s1))
               else Inr (defaultLineHeight s1, s1)))"

definition totalHeightUntilLineNumber :: "int \<Rightarrow> LineHeightManager \<Rightarrow> error + (int \<times> LineHeightManager)" where
  "totalHeightUntilLineNumber ln s =
     (case commit s of
        Inl e \<Rightarrow> Inl e
      | Inr s1 \<Rightarrow>
          (case binarySearchOverSpecialLinesArray (heap s1) (orderedSpecialLines s1) ln of
             Inl e \<Rightarrow> Inl e
           | Inr searchIndex \<Rightarrow>
               if searchIndex \<ge> 0 then
                 (case at (orderedSpecialLines s1) searchIndex of
                    None \<Rightarrow> Inl TypeError
                  | Some r \<Rightarrow>
                      Inr (add64 (prefixSum (heap s1 ! r)) (maximumSpecialHeight (heap s1 ! r)),
                           s1))
               else if searchIndex = - 1 then Inr (mul64 (defaultLineHeight s1) ln, s1)
               else
                 (let modifiedIndex = - (searchIndex + 1) in
                  case at (orderedSpecialLines s1) (modifiedIndex - 1) of
                    None \<Rightarrow> Inl TypeError
                  | Some p \<Rightarrow>
                      Inr (add64
                             (add64 (prefixSum (heap s1 ! p)) (maximumSpecialHeight (heap s1 ! p)))
                             (mul64 (defaultLineHeight s1) (sub64 ln (lineNumber (heap s1 ! p)))),
                           s1))))"

section \<open>Range shift on edit\<close>

text \<open>
  The backward scan \<open>for (let i = k - 1; i >= 0; i--)\<close> that decrements the start index
  while the record at \<open>i\<close> has the line number \<open>ln\<close>, and stops at the first other one.
\<close>

function widenBackward :: "SpecialLine list \<Rightarrow> ref option list \<Rightarrow> int \<Rightarrow> int \<Rightarrow> int \<Rightarrow> error + int" where
  "widenBackward h ordered ln i modifiedIndex =
     (if i \<ge> 0 then
        (case at ordered i of
           None \<Rightarrow> Inl TypeError
         | Some r \<Rightarrow>
             if lineNumber (h ! r) = ln then widenBackward h ordered ln (i - 1) (modifiedIndex - 1)
             else Inr modifiedIndex)
      else Inr modifiedIndex)"
  by pat_completeness auto
termination
  by (relation "measure (\<lambda>(h, ordered, ln, i, m). nat (i + 1))") auto

text \<open>The forward scan \<open>for (let i = k + 1; i < length; i++)\<close> of \<open>onLinesDeleted\<close>.\<close>

function widenForward :: "SpecialLine list \<Rightarrow> ref option list \<Rightarrow> int \<Rightarrow> int \<Rightarrow> int \<Rightarrow> error + int" where
  "widenForward h ordered ln i modifiedIndex =
     (if i < int (length ordered) then
        (case at ordered i of
           None \<Rightarrow> Inl TypeError
         | Some r \<Rightarrow>
             if lineNumber (h ! r) = ln then widenForward h ordered ln (i + 1) (modifiedIndex + 1)
             else Inr modifiedIndex)
      else Inr modifiedIndex)"
  by pat_completeness auto
termination
  by (relation "measure (\<lambda>(h, ordered, ln, i, m). nat (int (length ordered) - i))") auto

text \<open>
  The loop \<open>for (let i = start; i < length; i++) ordered[i].lineNumber += delta\<close>;
  \<open>onLinesDeleted\<close> runs it with a negative \<open>delta\<close> (its \<open>-=\<close>: the difference is
  the sum with the negated number, and is rounded the same).
\<close>

function shiftLineNumbers :: "SpecialLine list \<Rightarrow> ref option list \<Rightarrow> int \<Rightarrow> int \<Rightarrow> error + SpecialLine list" where
  "shiftLineNumbers h ordered i delta =
     (if i < int (length ordered) then
        (case at ordered i of
           None \<Rightarrow> Inl TypeError
         | Some r \<Rightarrow>
             shiftLineNumbers
               (modify h r (\<lambda>l. l\<lparr>lineNumber := add64 (lineNumber l) delta\<rparr>))
               ordered (i + 1) delta)
      else Inr h)"
  by pat_completeness auto
termination
  by (relation "measure (\<lambda>(h, ordered, i, delta). nat (int (length ordered) - i))") auto

text \<open>
  The two index computations of \<open>onLinesDeleted\<close>. Both scans compare with
  \<open>fromLineNumber\<close>, as the source does, and both adjust the index by one after the scan.
\<close>

definition modifiedStartIndexOfDeletion ::
  "SpecialLine list \<Rightarrow> ref option list \<Rightarrow> int \<Rightarrow> error + int" where
  "modifiedStartIndexOfDeletion h ordered fromLineNumber =
     (case binarySearchOverSpecialLinesArray h ordered fromLineNumber of
        Inl e \<Rightarrow> Inl e
      | Inr startIndexOfDeletion \<Rightarrow>
          if startIndexOfDeletion \<ge> 0 then
            (case widenBackward h ordered fromLineNumber (startIndexOfDeletion - 1)
                    startIndexOfDeletion of
               Inl e \<Rightarrow> Inl e
             | Inr m \<Rightarrow> Inr (m - 1))
          else Inr (- (startIndexOfDeletion + 1)))"

definition modifiedEndIndexOfDeletion ::
  "SpecialLine list \<Rightarrow> ref option list \<Rightarrow> int \<Rightarrow> int \<Rightarrow> error + int" where
  "modifiedEndIndexOfDeletion h ordered fromLineNumber toLineNumber =
     (case binarySearchOverSpecialLinesArray h ordered toLineNumber of
        Inl e \<Rightarrow> Inl e
      | Inr endIndexOfDeletion \<Rightarrow>
          if endIndexOfDeletion \<ge> 0 then
            (case widenForward h ordered fromLineNumber (endIndexOfDeletion + 1)
                    endIndexOfDeletion of
               Inl e \<Rightarrow> Inl e
             | Inr m \<Rightarrow> Inr (m + 1))
          else Inr (- (endIndexOfDeletion + 1)))"

definition onLinesDeleted :: "int \<Rightarrow> int \<Rightarrow> LineHeightManager \<Rightarrow> error + LineHeightManager" where
  "onLinesDeleted fromLineNumber toLineNumber s =
     (case commit s of
        Inl e \<Rightarrow> Inl e
      | Inr s1 \<Rightarrow>
          (case modifiedStartIndexOfDeletion (heap s1) (orderedSpecialLines s1) fromLineNumber of
             Inl e \<Rightarrow> Inl e
           | Inr modifiedStart \<Rightarrow>
               (case modifiedEndIndexOfDeletion (heap s1) (orderedSpecialLines s1)
                       fromLineNumber toLineNumber of
                  Inl e \<Rightarrow> Inl e
                | Inr modifiedEnd \<Rightarrow>
                    (let ordered = splice (orderedSpecialLines s1) modifiedStart
                                     (modifiedEnd - modifiedStart) [];
                         numberOfDeletedLines = add64 (sub64 toLineNumber fromLineNumber) 1
                     in case shiftLineNumbers (heap s1) ordered modifiedStart
                               (- numberOfDeletedLines) of
                          Inl e \<Rightarrow> Inl e
                        | Inr h \<Rightarrow> Inr (s1\<lparr>heap := h, orderedSpecialLines := ordered\<rparr>)))))"

definition startIndexOfInsertion ::
  "SpecialLine list \<Rightarrow> ref option list \<Rightarrow> int \<Rightarrow> error + int" where
  "startIndexOfInsertion h ordered fromLineNumber =
     (case binarySearchOverSpecialLinesArray h ordered (add64 fromLineNumber 1) of
        Inl e \<Rightarrow> Inl e
      | Inr searchIndex \<Rightarrow>
          if searchIndex \<ge> 0 then
            widenBackward h ordered fromLineNumber (searchIndex - 1) searchIndex
          else Inr (- (searchIndex + 1)))"

definition onLinesInserted :: "int \<Rightarrow> int \<Rightarrow> LineHeightManager \<Rightarrow> error + LineHeightManager" where
  "onLinesInserted fromLineNumber toLineNumber s =
     (case commit s of
        Inl e \<Rightarrow> Inl e
      | Inr s1 \<Rightarrow>
          (case startIndexOfInsertion (heap s1) (orderedSpecialLines s1) fromLineNumber of
             Inl e \<Rightarrow> Inl e
           | Inr startIndex \<Rightarrow>
               (let numberOfInsertedLines = add64 (sub64 toLineNumber fromLineNumber) 1
                in case shiftLineNumbers (heap s1) (orderedSpecialLines s1) startIndex
                          numberOfInsertedLines of
                     Inl e \<Rightarrow> Inl e
                   | Inr h \<Rightarrow> Inr (s1\<lparr>heap := h\<rparr>))))"

section \<open>Sequences of calls\<close>

text \<open>
  A caller drives the manager by a sequence of calls on one object. \<open>run\<close> performs
  the calls in order from a given state and stops at the first exception; the results of
  the two queries are dropped, their implicit commit is kept.
\<close>

datatype call =
    InsertOrChange string int int
  | Remove string
  | HeightForLineNumber int
  | TotalHeightUntilLineNumber int
  | LinesDeleted int int
  | LinesInserted int int
  | Commit

fun perform :: "call \<Rightarrow> LineHeightManager \<Rightarrow> error + LineHeightManager" where
  "perform (InsertOrChange did ln lh) s =
     Inr (insertOrChangeSpecialLineHeightUsingDecoration did ln lh s)"
| "perform (Remove did) s = Inr (removeSpecialLineUsingDecoration did s)"
| "perform (HeightForLineNumber ln) s = map_sum id snd (heightForLineNumber ln s)"
| "perform (TotalHeightUntilLineNumber ln) s = map_sum id snd (totalHeightUntilLineNumber ln s)"
| "perform (LinesDeleted f t) s = onLinesDeleted f t s"
| "perform (LinesInserted f t) s = onLinesInserted f t s"
| "perform Commit s = commit s"

fun run :: "call list \<Rightarrow> LineHeightManager \<Rightarrow> error + LineHeightManager" where
  "run [] s = Inr s"
| "run (c # cs) s = (case perform c s of Inl e \<Rightarrow> Inl e | Inr s1 \<Rightarrow> run cs s1)"

text \<open>The value a query returns after a sequence of calls on a new manager.\<close>

definition heightAfter :: "int \<Rightarrow> call list \<Rightarrow> int \<Rightarrow> error + int" where
  "heightAfter d cs ln =
     (case run cs (newLineHeightManager d) of
        Inl e \<Rightarrow> Inl e
      | Inr s \<Rightarrow> map_sum id fst (heightForLineNumber ln s))"

definition totalAfter :: "int \<Rightarrow> call list \<Rightarrow> int \<Rightarrow> error + int" where
  "totalAfter d cs ln =
     (case run cs (newLineHeightManager d) of
        Inl e \<Rightarrow> Inl e
      | Inr s \<Rightarrow> map_sum id fst (totalHeightUntilLineNumber ln s))"

text \<open>The records of the ordered array after a sequence of calls on a new manager.\<close>

definition recordsAfter :: "int \<Rightarrow> call list \<Rightarrow> error + SpecialLine option list" where
  "recordsAfter d cs =
     (case run cs (newLineHeightManager d) of
        Inl e \<Rightarrow> Inl e
      | Inr s \<Rightarrow> Inr (map (map_option (\<lambda>r. heap s ! r)) (orderedSpecialLines s)))"

section \<open>Committed and consistent states\<close>

text \<open>
  A state is committed when nothing is pending, so that \<open>commit\<close> returns at once.
\<close>

definition committed :: "LineHeightManager \<Rightarrow> bool" where
  "committed s = (\<not> hasPending s)"

text \<open>The ordered array has no \<open>undefined\<close> element.\<close>

definition noHoles :: "LineHeightManager \<Rightarrow> bool" where
  "noHoles s = list_all (\<lambda>x. x \<noteq> None) (orderedSpecialLines s)"

text \<open>The objects of the ordered array, in its order.\<close>

definition specialLines :: "LineHeightManager \<Rightarrow> SpecialLine list" where
  "specialLines s = List.map_filter (map_option (\<lambda>r. heap s ! r)) (orderedSpecialLines s)"

text \<open>
  The consistency predicate of the data model, over the ordered array. For two
  neighbours \<open>a\<close>, \<open>b\<close>: the line numbers ascend; inside a run \<open>b\<close> shares the maximum
  and the prefix sum of \<open>a\<close>; at the start of a new run the prefix sum of \<open>b\<close> is that
  of \<open>a\<close> plus the height of the line of \<open>a\<close> plus the default height for every line
  strictly between the two.
\<close>

fun chain :: "int \<Rightarrow> SpecialLine list \<Rightarrow> bool" where
  "chain d (a # b # rest) =
     (lineNumber a \<le> lineNumber b
      \<and> (if lineNumber a = lineNumber b then
           maximumSpecialHeight b = maximumSpecialHeight a \<and> prefixSum b = prefixSum a
         else
           prefixSum b = prefixSum a + maximumSpecialHeight a
                           + d * (lineNumber b - lineNumber a - 1))
      \<and> chain d (b # rest))"
| "chain d rest = True"

text \<open>The first record has the default height for every line before its own.\<close>

fun firstPrefix :: "int \<Rightarrow> SpecialLine list \<Rightarrow> bool" where
  "firstPrefix d [] = True"
| "firstPrefix d (a # rest) = (prefixSum a = d * (lineNumber a - 1))"

text \<open>
  The maximum of a record is the largest special height among the records of its line.
\<close>

definition runMaximum :: "SpecialLine list \<Rightarrow> SpecialLine \<Rightarrow> bool" where
  "runMaximum recs l =
     (maximumSpecialHeight l =
        fold max (map specialHeight (filter (\<lambda>m. lineNumber m = lineNumber l) recs))
          (specialHeight l))"

text \<open>
  A consistent state: no hole and no deleted record in the ordered array, line numbers
  from 1 on, and the three conditions above. The predicate says nothing of the map from
  decoration ids, which the queries do not read.
\<close>

definition consistent :: "LineHeightManager \<Rightarrow> bool" where
  "consistent s =
     (noHoles s
      \<and> list_all (\<lambda>l. \<not> deleted l \<and> 1 \<le> lineNumber l) (specialLines s)
      \<and> firstPrefix (defaultLineHeight s) (specialLines s)
      \<and> chain (defaultLineHeight s) (specialLines s)
      \<and> list_all (runMaximum (specialLines s)) (specialLines s))"

text \<open>The state a sequence of calls on a new manager leaves is consistent.\<close>

definition consistentAfter :: "int \<Rightarrow> call list \<Rightarrow> error + bool" where
  "consistentAfter d cs =
     (case run cs (newLineHeightManager d) of
        Inl e \<Rightarrow> Inl e
      | Inr s \<Rightarrow> Inr (consistent s))"

section \<open>What a consistent array stands for\<close>




text \<open>
  The value \<open>totalHeightUntilLineNumber\<close> computes from the result \<open>r\<close> of the binary
  search, over the objects of the ordered array.
\<close>

definition searchValue :: "int \<Rightarrow> SpecialLine list \<Rightarrow> int \<Rightarrow> int \<Rightarrow> int" where
  "searchValue d recs ln r =
     (if 0 \<le> r then add64 (prefixSum (recs ! nat r)) (maximumSpecialHeight (recs ! nat r))
      else if r = - 1 then mul64 d ln
      else add64
             (add64 (prefixSum (recs ! nat (- (r + 1) - 1)))
                (maximumSpecialHeight (recs ! nat (- (r + 1) - 1))))
             (mul64 d (sub64 ln (lineNumber (recs ! nat (- (r + 1) - 1))))))"


text \<open>
  What a result \<open>r\<close> of the binary search for \<open>ln\<close> says of an array of \<open>n\<close> line
  numbers \<open>L\<close>: a match at \<open>r\<close>, or on a miss the insertion point \<open>-(r + 1)\<close> with
  smaller line numbers before it and larger ones from it on.
\<close>

definition found :: "(int \<Rightarrow> int) \<Rightarrow> int \<Rightarrow> int \<Rightarrow> int \<Rightarrow> bool" where
  "found L n ln r =
     (if 0 \<le> r then r < n \<and> L r = ln
      else 0 \<le> - (r + 1) \<and> - (r + 1) \<le> n
           \<and> (\<forall>i. 0 \<le> i \<and> i < - (r + 1) \<longrightarrow> L i < ln)
           \<and> (\<forall>i. - (r + 1) \<le> i \<and> i < n \<longrightarrow> ln < L i))"

section \<open>What commit keeps\<close>

text \<open>
  Two objects agree on the fields that the callers set: \<open>lineNumber\<close>,
  \<open>specialHeight\<close>, \<open>decorationId\<close> and \<open>deleted\<close>. The commit writes the others.
\<close>

definition sameInputs :: "SpecialLine \<Rightarrow> SpecialLine \<Rightarrow> bool" where
  "sameInputs a b =
     (lineNumber a = lineNumber b \<and> specialHeight a = specialHeight b
      \<and> decorationId a = decorationId b \<and> deleted a = deleted b)"

text \<open>
  The reference \<open>r\<close> stands in the ordered array at or after the invalid index, which
  is finite: the second loop of \<open>commit\<close> will reach it.
\<close>

definition covered :: "ref option list \<Rightarrow> number \<Rightarrow> ref \<Rightarrow> bool" where
  "covered ordered invalid r =
     (\<exists>j k. invalid = Finite k \<and> k \<le> int j \<and> j < length ordered \<and> ordered ! j = Some r)"

text \<open>The invalid index is not a negative number.\<close>

fun nonNegative :: "number \<Rightarrow> bool" where
  "nonNegative Infinity = True"
| "nonNegative (Finite k) = (0 \<le> k)"

section \<open>The frame of the range edits\<close>

text \<open>Two objects agree on every field but \<open>lineNumber\<close>.\<close>

definition sameButLineNumber :: "SpecialLine \<Rightarrow> SpecialLine \<Rightarrow> bool" where
  "sameButLineNumber a b =
     (index a = index b \<and> specialHeight a = specialHeight b \<and> prefixSum a = prefixSum b
      \<and> maximumSpecialHeight a = maximumSpecialHeight b \<and> decorationId a = decorationId b
      \<and> deleted a = deleted b)"

text \<open>
  What a range edit leaves alone between the state \<open>s\<close> before and the state \<open>s'\<close>
  after: the map, the pending queue, the invalid index, the default height, the pending
  flag, the number of objects, every field but \<open>lineNumber\<close> of every object, and every
  object that is not in the ordered array afterwards.
\<close>

definition frameOfRangeEdit :: "LineHeightManager \<Rightarrow> LineHeightManager \<Rightarrow> bool" where
  "frameOfRangeEdit s s' =
     (decorationIDToSpecialLine s' = decorationIDToSpecialLine s
      \<and> pendingSpecialLinesToInsert s' = pendingSpecialLinesToInsert s
      \<and> invalidIndex s' = invalidIndex s
      \<and> defaultLineHeight s' = defaultLineHeight s
      \<and> hasPending s' = hasPending s
      \<and> length (heap s') = length (heap s)
      \<and> (\<forall>r. sameButLineNumber (heap s' ! r) (heap s ! r))
      \<and> (\<forall>r. Some r \<in> set (orderedSpecialLines s') \<or> heap s' ! r = heap s ! r))"

text \<open>
  The equations of the loops are applied by hand in the proofs below, one step at a
  time.
\<close>

declare bitLength.simps [simp del]
  binarySearch2_loop.simps [simp del] maximumLoop.simps [simp del]
  commitLoop.simps [simp del] widenBackward.simps [simp del] widenForward.simps [simp del]
  shiftLineNumbers.simps [simp del]

section \<open>Where the code departs from the specification\<close>

text \<open>
  C1. The specification says that \<open>heightForLineNumber(n)\<close> is the largest special height
  among the overrides on line \<open>n\<close> that are not deleted: with \<open>A\<close> (line 5, height 40)
  and \<open>B\<close> (line 5, height 25) it is 40, and 25 once \<open>A\<close> is removed. In the code the
  removal of \<open>A\<close> invalidates the array from the position of \<open>A\<close> only; \<open>B\<close> stands
  before \<open>A\<close> and keeps the maximum 40 it was given, so the query still answers 40.
  The state in which \<open>A\<close> is removed is committed and consistent.
\<close>

theorem heightForLineNumber_keeps_maximum_of_removed:
  "heightAfter 20 [InsertOrChange ''A'' 5 40, InsertOrChange ''B'' 5 25] 5 = Inr 40
   \<and> consistentAfter 20 [InsertOrChange ''A'' 5 40, InsertOrChange ''B'' 5 25,
                          HeightForLineNumber 5] = Inr True
   \<and> heightAfter 20 [InsertOrChange ''A'' 5 40, InsertOrChange ''B'' 5 25,
                      HeightForLineNumber 5, Remove ''A''] 5 = Inr 40"
  by code_simp

text \<open>
  C3. The specification says that every operation returns normally on valid input. With
  one override on line 5, \<open>onLinesDeleted(5, 5)\<close> finds the record at index 0, lowers the
  start index to \<open>-1\<close>, and the loop that shifts the line numbers reads the element at
  index \<open>-1\<close>, which is \<open>undefined\<close>: the call throws a \<open>TypeError\<close>. The state
  in which it is called is committed and consistent.
\<close>

theorem onLinesDeleted_throws_on_first_record:
  "recordsAfter 20 [InsertOrChange ''A'' 5 40, Commit, LinesDeleted 5 5] = Inl TypeError
   \<and> (case run [InsertOrChange ''A'' 5 40, Commit] (newLineHeightManager 20) of
         Inl e \<Rightarrow> False
       | Inr s \<Rightarrow>
           committed s \<and> consistent s
           \<and> modifiedStartIndexOfDeletion (heap s) (orderedSpecialLines s) 5 = Inr (- 1)
           \<and> map_sum id (\<lambda>s'. ()) (onLinesDeleted 5 5 s) = Inl TypeError)"
  by code_simp

text \<open>
  C4. The specification says that \<open>onLinesDeleted(from, to)\<close> removes the records of the
  lines \<open>from\<close> to \<open>to\<close> and no record of a line before \<open>from\<close>. With overrides on lines
  2 and 5, \<open>onLinesDeleted(5, 5)\<close> removes both: the start index is lowered by one after
  the exact match, onto the record of line 2. The scenario of the claim, where no record
  is matched, does hold.
\<close>

theorem onLinesDeleted_removes_record_before_range:
  "consistentAfter 20 [InsertOrChange ''A'' 2 40, InsertOrChange ''B'' 5 25, Commit] = Inr True
   \<and> recordsAfter 20 [InsertOrChange ''A'' 2 40, InsertOrChange ''B'' 5 25, Commit, LinesDeleted 5 5] = Inr []
   \<and> heightAfter 20 [InsertOrChange ''A'' 2 40, InsertOrChange ''B'' 5 25, Commit, LinesDeleted 5 5] 2
       = Inr 20
   \<and> heightAfter 20 [InsertOrChange ''A'' 5 40, Commit, LinesDeleted 3 4] 3 = Inr 40
   \<and> heightAfter 20 [InsertOrChange ''A'' 5 40, Commit, LinesDeleted 3 4] 5 = Inr 20"
  by code_simp

text \<open>
  C5. The specification says that \<open>onLinesInserted(from, to)\<close> shifts the records of the
  lines after \<open>from\<close> and leaves those of line \<open>from\<close> where they are. With overrides on
  lines 5 and 6, \<open>onLinesInserted(5, 5)\<close> finds line 6 at index 1 and then scans backward
  over the records whose line number equals \<open>from\<close>, so the record of line 5 is shifted
  to line 6 with the other one. When the search misses (overrides on lines 5 and 7), the
  record of line 5 stays, as the specification says.
\<close>

theorem onLinesInserted_shifts_record_of_from_line:
  "consistentAfter 20 [InsertOrChange ''A'' 5 40, InsertOrChange ''B'' 6 25, Commit] = Inr True
   \<and> map_sum id (map (map_option lineNumber))
     (recordsAfter 20 [InsertOrChange ''A'' 5 40, InsertOrChange ''B'' 6 25, Commit, LinesInserted 5 5])
   = Inr [Some 6, Some 7]
   \<and> map_sum id (map (map_option lineNumber))
     (recordsAfter 20 [InsertOrChange ''A'' 5 40, InsertOrChange ''B'' 7 25, Commit, LinesInserted 5 5])
   = Inr [Some 5, Some 8]"
  by code_simp

text \<open>
  C6. The specification says that the consistency predicate holds after every commit; in
  particular the first record has \<open>prefixSum = defaultLineHeight * (lineNumber - 1)\<close>.
  With overrides on lines 3 and 5, after the first one is removed the commit computes the
  prefix sum of the survivor from the deleted record, the element before it in the array
  being walked: the only record left is on line 5 with the prefix sum 100, not 80.
\<close>

theorem commit_prefixSum_from_deleted_record:
  "consistentAfter 20 [InsertOrChange ''A'' 3 40, InsertOrChange ''B'' 5 25, Commit] = Inr True
   \<and> recordsAfter 20 [InsertOrChange ''A'' 3 40, InsertOrChange ''B'' 5 25, Commit,
                    Remove ''A'', Commit]
     = Inr [Some \<lparr>index = 0, lineNumber = 5, specialHeight = 25, prefixSum = 100,
                  maximumSpecialHeight = 25, decorationId = ''B'', deleted = False\<rparr>]
   \<and> consistentAfter 20 [InsertOrChange ''A'' 3 40, InsertOrChange ''B'' 5 25, Commit,
                         Remove ''A'', Commit] = Inr False"
  by code_simp

text \<open>
  C7. The specification says that an insert followed by the removal of the same fresh
  identifier restores \<open>heightForLineNumber(L)\<close>. On a new manager with the default height
  20 the height of line 5 is 20; after the insert of \<open>A\<close> (line 5, height 40) and the
  removal of \<open>A\<close> it is 40: the record is still in the pending queue when it is removed,
  the map does not know it, and the removal returns without doing anything.
\<close>

theorem insert_remove_does_not_restore_height:
  "heightAfter 20 [] 5 = Inr 20
   \<and> heightAfter 20 [InsertOrChange ''A'' 5 40, Remove ''A''] 5 = Inr 40"
  by code_simp

section \<open>Range edits change line numbers only\<close>

lemma modify_nth:
  "modify h r f ! r' = (if r' = r \<and> r < length h then f (h ! r) else h ! r')"
  by (auto simp: modify_def list_update_beyond)

lemma length_modify [simp]: "length (modify h r f) = length h"
  by (simp add: modify_def)

lemma shiftLineNumbers_frame:
  "shiftLineNumbers h ordered i delta = Inr h' \<Longrightarrow>
     length h' = length h \<and> (\<forall>r. sameButLineNumber (h' ! r) (h ! r))"
proof (induction h ordered i delta rule: shiftLineNumbers.induct)
  case (1 h ordered i delta)
  show ?case
  proof (cases "i < int (length ordered)")
    case False
    with "1.prems" show ?thesis
      by (subst (asm) shiftLineNumbers.simps) (simp add: sameButLineNumber_def)
  next
    case True
    show ?thesis
    proof (cases "at ordered i")
      case None
      with True "1.prems" show ?thesis by (subst (asm) shiftLineNumbers.simps) simp
    next
      case (Some r)
      let ?h1 = "modify h r (\<lambda>l. l\<lparr>lineNumber := add64 (lineNumber l) delta\<rparr>)"
      from True Some "1.prems" have "shiftLineNumbers ?h1 ordered (i + 1) delta = Inr h'"
        by (subst (asm) shiftLineNumbers.simps) simp
      from "1.IH"[OF True Some this]
      have "length h' = length ?h1" and *: "\<forall>r. sameButLineNumber (h' ! r) (?h1 ! r)" by auto
      moreover have "sameButLineNumber (?h1 ! q) (h ! q)" for q
        by (simp add: modify_nth sameButLineNumber_def)
      ultimately show ?thesis
        by (auto simp: sameButLineNumber_def)
    qed
  qed
qed

lemma shiftLineNumbers_outside:
  "shiftLineNumbers h ordered i delta = Inr h' \<Longrightarrow> Some q \<notin> set ordered \<Longrightarrow> h' ! q = h ! q"
proof (induction h ordered i delta rule: shiftLineNumbers.induct)
  case (1 h ordered i delta)
  show ?case
  proof (cases "i < int (length ordered)")
    case False
    with "1.prems" show ?thesis by (subst (asm) shiftLineNumbers.simps) simp
  next
    case True
    show ?thesis
    proof (cases "at ordered i")
      case None
      with True "1.prems" show ?thesis by (subst (asm) shiftLineNumbers.simps) simp
    next
      case (Some r)
      let ?h1 = "modify h r (\<lambda>l. l\<lparr>lineNumber := add64 (lineNumber l) delta\<rparr>)"
      from True Some "1.prems" have "shiftLineNumbers ?h1 ordered (i + 1) delta = Inr h'"
        by (subst (asm) shiftLineNumbers.simps) simp
      from "1.IH"[OF True Some this "1.prems"(2)] have "h' ! q = ?h1 ! q" .
      moreover from Some True have "Some r \<in> set ordered"
        by (auto simp: at_def split: if_splits) (metis nth_mem nat_less_iff)
      with "1.prems"(2) have "q \<noteq> r" by auto
      ultimately show ?thesis by (simp add: modify_nth)
    qed
  qed
qed

lemma splice_delete:
  "\<exists>a b. splice xs start n [] = take a xs @ drop b xs \<and> a \<le> b"
  by (auto simp: splice_def Let_def intro!: exI)

lemma commit_committed: "committed s \<Longrightarrow> commit s = Inr s"
  by (simp add: committed_def commit_def)


lemma onLinesInserted_frame:
  assumes c: "committed s" and r: "onLinesInserted f t s = Inr s'"
  shows "frameOfRangeEdit s s' \<and> orderedSpecialLines s' = orderedSpecialLines s"
proof -
  from c have cs: "commit s = Inr s" by (rule commit_committed)
  from r cs obtain k delta h where
    sh: "shiftLineNumbers (heap s) (orderedSpecialLines s) k delta = Inr h"
    and s': "s' = s\<lparr>heap := h\<rparr>"
    by (auto simp: onLinesInserted_def Let_def split: sum.splits)
  from shiftLineNumbers_frame[OF sh] shiftLineNumbers_outside[OF sh] s'
  show ?thesis by (auto simp: frameOfRangeEdit_def)
qed

lemma onLinesDeleted_frame:
  assumes c: "committed s" and r: "onLinesDeleted f t s = Inr s'"
  shows "frameOfRangeEdit s s'
         \<and> (\<exists>a b. a \<le> b \<and> orderedSpecialLines s'
                = take a (orderedSpecialLines s) @ drop b (orderedSpecialLines s))"
proof -
  from c have cs: "commit s = Inr s" by (rule commit_committed)
  from r cs obtain k n delta h where
    sh: "shiftLineNumbers (heap s) (splice (orderedSpecialLines s) k n []) k delta = Inr h"
    and s': "s' = s\<lparr>heap := h, orderedSpecialLines := splice (orderedSpecialLines s) k n []\<rparr>"
    by (auto simp: onLinesDeleted_def Let_def split: sum.splits)
  from splice_delete[of "orderedSpecialLines s" k n] obtain a b where
    "splice (orderedSpecialLines s) k n [] = take a (orderedSpecialLines s) @ drop b (orderedSpecialLines s)"
    "a \<le> b" by blast
  with shiftLineNumbers_frame[OF sh] shiftLineNumbers_outside[OF sh] s'
  show ?thesis by (auto simp: frameOfRangeEdit_def)
qed

text \<open>
  C10. In a committed state \<open>onLinesInserted\<close> and \<open>onLinesDeleted\<close>, when they return,
  have changed nothing but \<open>lineNumber\<close> fields of objects that are in the ordered array
  afterwards and, for \<open>onLinesDeleted\<close>, the ordered array itself, from which one
  contiguous range is cut. The fields \<open>specialHeight\<close>, \<open>maximumSpecialHeight\<close>,
  \<open>prefixSum\<close>, \<open>index\<close> and \<open>deleted\<close> of every object, the pending flag and the
  invalid index are as before; \<open>mustCommit\<close> is still false and the commit of the next
  query returns the state as it is, recomputing nothing.
\<close>

theorem range_edits_change_line_numbers_only:
  "committed s \<Longrightarrow>
     (\<forall>s'. onLinesInserted f t s = Inr s' \<longrightarrow>
        frameOfRangeEdit s s' \<and> orderedSpecialLines s' = orderedSpecialLines s
        \<and> \<not> mustCommit s' \<and> commit s' = Inr s')
     \<and> (\<forall>s'. onLinesDeleted f t s = Inr s' \<longrightarrow>
        frameOfRangeEdit s s'
        \<and> (\<exists>a b. a \<le> b \<and> orderedSpecialLines s'
               = take a (orderedSpecialLines s) @ drop b (orderedSpecialLines s))
        \<and> \<not> mustCommit s' \<and> commit s' = Inr s')"
proof (intro conjI allI impI)
  fix s'
  assume c: "committed s" and r: "onLinesInserted f t s = Inr s'"
  from onLinesInserted_frame[OF c r]
  show "frameOfRangeEdit s s'" "orderedSpecialLines s' = orderedSpecialLines s" by auto
  with c show "\<not> mustCommit s'" "commit s' = Inr s'"
    by (auto simp: frameOfRangeEdit_def mustCommit_def committed_def commit_def)
next
  fix s'
  assume c: "committed s" and r: "onLinesDeleted f t s = Inr s'"
  from onLinesDeleted_frame[OF c r]
  show f: "frameOfRangeEdit s s'"
    and "\<exists>a b. a \<le> b \<and> orderedSpecialLines s'
               = take a (orderedSpecialLines s) @ drop b (orderedSpecialLines s)" by auto
  with c show "\<not> mustCommit s'" "commit s' = Inr s'"
    by (auto simp: frameOfRangeEdit_def mustCommit_def committed_def commit_def)
qed

theorem range_edits_change_line_numbers_only_witness:
  "\<exists>s s1 s2. run [InsertOrChange ''A'' 5 40, InsertOrChange ''B'' 9 25, Commit] (newLineHeightManager 20) = Inr s
     \<and> committed s
     \<and> onLinesInserted 6 7 s = Inr s1 \<and> frameOfRangeEdit s s1 \<and> \<not> mustCommit s1 \<and> commit s1 = Inr s1
     \<and> onLinesDeleted 6 7 s = Inr s2 \<and> frameOfRangeEdit s s2 \<and> \<not> mustCommit s2 \<and> commit s2 = Inr s2
     \<and> map (map_option (\<lambda>r. lineNumber (heap s1 ! r))) (orderedSpecialLines s1) = [Some 5, Some 11]
     \<and> map (map_option (\<lambda>r. lineNumber (heap s2 ! r))) (orderedSpecialLines s2) = [Some 5, Some 7]"
proof -
  have "case run [InsertOrChange ''A'' 5 40, InsertOrChange ''B'' 9 25, Commit] (newLineHeightManager 20) of
          Inl e \<Rightarrow> False
        | Inr s \<Rightarrow> committed s
            \<and> (case onLinesInserted 6 7 s of Inl e \<Rightarrow> False
               | Inr s1 \<Rightarrow> map (map_option (\<lambda>r. lineNumber (heap s1 ! r))) (orderedSpecialLines s1) = [Some 5, Some 11])
            \<and> (case onLinesDeleted 6 7 s of Inl e \<Rightarrow> False
               | Inr s2 \<Rightarrow> map (map_option (\<lambda>r. lineNumber (heap s2 ! r))) (orderedSpecialLines s2) = [Some 5, Some 7])"
    by code_simp
  then obtain s s1 s2 where
    s: "run [InsertOrChange ''A'' 5 40, InsertOrChange ''B'' 9 25, Commit] (newLineHeightManager 20) = Inr s"
    and c: "committed s"
    and s1: "onLinesInserted 6 7 s = Inr s1"
      "map (map_option (\<lambda>r. lineNumber (heap s1 ! r))) (orderedSpecialLines s1) = [Some 5, Some 11]"
    and s2: "onLinesDeleted 6 7 s = Inr s2"
      "map (map_option (\<lambda>r. lineNumber (heap s2 ! r))) (orderedSpecialLines s2) = [Some 5, Some 7]"
    by (auto split: sum.splits)
  from range_edits_change_line_numbers_only[OF c, of 6 7] s1(1) s2(1)
  have "frameOfRangeEdit s s1 \<and> \<not> mustCommit s1 \<and> commit s1 = Inr s1"
    and "frameOfRangeEdit s s2 \<and> \<not> mustCommit s2 \<and> commit s2 = Inr s2"
    by blast+
  with s c s1 s2 show ?thesis
    by (intro exI[of _ s] exI[of _ s1] exI[of _ s2]) simp
qed


section \<open>The queries in a consistent state\<close>

lemma binarySearch2_loop_sorted:
  fixes L :: "int \<Rightarrow> int"
  assumes "\<And>i. 0 \<le> i \<Longrightarrow> i < n \<Longrightarrow>
             compareToKey i = Inr (if L i = ln then 0 else if L i < ln then - 1 else 1)"
    and "\<And>i j. 0 \<le> i \<Longrightarrow> i \<le> j \<Longrightarrow> j < n \<Longrightarrow> L i \<le> L j"
    and "0 \<le> low" and "high < n" and "low \<le> high + 1"
    and "\<And>i. 0 \<le> i \<Longrightarrow> i < low \<Longrightarrow> L i < ln"
    and "\<And>i. high < i \<Longrightarrow> i < n \<Longrightarrow> ln < L i"
  shows "\<exists>r. binarySearch2_loop compareToKey low high = Inr r \<and> found L n ln r"
  using assms
proof (induction compareToKey low high rule: binarySearch2_loop.induct)
  case (1 compareToKey low high)
  show ?case
  proof (cases "low \<le> high")
    case False
    with "1.prems"(5) have eq: "low = high + 1" by simp
    have "binarySearch2_loop compareToKey low high = Inr (- (low + 1))"
      using False by (subst binarySearch2_loop.simps) simp
    moreover have "found L n ln (- (low + 1))"
      using "1.prems"(3,4,6,7) eq by (auto simp: found_def)
    ultimately show ?thesis by blast
  next
    case True
    define mid where "mid = (low + high) div 2"
    have mid: "low \<le> mid" "mid \<le> high" using True by (auto simp: mid_def)
    with "1.prems"(3,4) have midr: "0 \<le> mid" "mid < n" by auto
    note c = "1.prems"(1)[OF midr]
    consider (lt) "L mid < ln" | (eq) "L mid = ln" | (gt) "ln < L mid" by linarith
    then show ?thesis
    proof cases
      case eq
      then have "binarySearch2_loop compareToKey low high = Inr mid"
        using True c by (subst binarySearch2_loop.simps) (simp add: mid_def)
      moreover have "found L n ln mid" using eq midr by (simp add: found_def)
      ultimately show ?thesis by blast
    next
      case lt
      then have step: "binarySearch2_loop compareToKey low high
                        = binarySearch2_loop compareToKey (mid + 1) high"
        using True c by (subst binarySearch2_loop.simps) (simp add: mid_def)
      have below: "L i < ln" if "0 \<le> i" "i < mid + 1" for i
      proof -
        from that "1.prems"(2)[of i mid] midr have "L i \<le> L mid" by simp
        with lt show ?thesis by simp
      qed
      have "\<exists>r. binarySearch2_loop compareToKey (mid + 1) high = Inr r \<and> found L n ln r"
      proof (rule "1.IH"(1)[OF True mid_def])
        show "compareToKey mid = Inr (- 1)" using c lt by simp
        show "(- 1 :: int) < 0" by simp
      qed (use "1.prems" mid midr below in auto)
      with step show ?thesis by simp
    next
      case gt
      then have step: "binarySearch2_loop compareToKey low high
                        = binarySearch2_loop compareToKey low (mid - 1)"
        using True c by (subst binarySearch2_loop.simps) (simp add: mid_def)
      have above: "ln < L i" if "mid - 1 < i" "i < n" for i
      proof -
        from that "1.prems"(2)[of mid i] midr have "L mid \<le> L i" by simp
        with gt show ?thesis by simp
      qed
      have "\<exists>r. binarySearch2_loop compareToKey low (mid - 1) = Inr r \<and> found L n ln r"
      proof (rule "1.IH"(2)[OF True mid_def])
        show "compareToKey mid = Inr 1" using c gt by simp
        show "\<not> (1 :: int) < 0" by simp
        show "(0 :: int) < 1" by simp
      qed (use "1.prems" mid midr above in auto)
      with step show ?thesis by simp
    qed
  qed
qed


lemma noHoles_list:
  "list_all (\<lambda>x. x \<noteq> None) xs \<Longrightarrow>
     \<exists>refs. xs = map Some refs \<and> List.map_filter (map_option f) xs = map f refs"
proof (induction xs)
  case Nil
  then show ?case by (simp add: List.map_filter_simps)
next
  case (Cons x xs)
  then obtain refs where r: "xs = map Some refs" "List.map_filter (map_option f) xs = map f refs"
    by auto
  from Cons.prems obtain y where y: "x = Some y" by auto
  have "x # xs = map Some (y # refs)" using r y by simp
  moreover have "List.map_filter (map_option f) (x # xs) = map f (y # refs)"
    using r y by (simp add: List.map_filter_simps)
  ultimately show ?case by (intro exI[of _ "y # refs"] conjI)
qed

lemma noHoles_refs:
  assumes "noHoles s"
  shows "\<exists>refs. orderedSpecialLines s = map Some refs
               \<and> specialLines s = map (\<lambda>r. heap s ! r) refs"
  using noHoles_list[OF assms[unfolded noHoles_def]] by (simp add: specialLines_def)

lemma chain_sorted: "chain d recs \<Longrightarrow> sorted (map lineNumber recs)"
  by (induction d recs rule: chain.induct) auto




lemma lines_mono:
  "chain d recs \<Longrightarrow> i \<le> j \<Longrightarrow> j < length recs \<Longrightarrow> lineNumber (recs ! i) \<le> lineNumber (recs ! j)"
  using chain_sorted[of d recs] by (auto simp: sorted_iff_nth_mono)





lemma search_consistent:
  assumes "consistent s"
  shows "\<exists>r. binarySearchOverSpecialLinesArray (heap s) (orderedSpecialLines s) ln = Inr r
           \<and> found (\<lambda>i. lineNumber (specialLines s ! nat i)) (int (length (specialLines s))) ln r"
proof -
  from assms have nh: "noHoles s" and ch: "chain (defaultLineHeight s) (specialLines s)"
    by (auto simp: consistent_def)
  from noHoles_refs[OF nh] obtain refs where
    o: "orderedSpecialLines s = map Some refs" and
    r: "specialLines s = map (\<lambda>r. heap s ! r) refs" by blast
  let ?L = "\<lambda>i. lineNumber (specialLines s ! nat i)"
  let ?n = "int (length (specialLines s))"
  have "\<exists>r. binarySearch2_loop (compareLine (heap s) (orderedSpecialLines s) ln) 0 (?n - 1) = Inr r
          \<and> found ?L ?n ln r"
  proof (rule binarySearch2_loop_sorted)
    fix i :: int assume "0 \<le> i" "i < ?n"
    then show "compareLine (heap s) (orderedSpecialLines s) ln i
        = Inr (if ?L i = ln then 0 else if ?L i < ln then - 1 else 1)"
      by (simp add: compareLine_def at_def o r)
  next
    fix i j :: int assume "0 \<le> i" "i \<le> j" "j < ?n"
    then show "?L i \<le> ?L j"
      using lines_mono[OF ch, of "nat i" "nat j"] by simp
  qed auto
  then show ?thesis
    by (simp add: binarySearchOverSpecialLinesArray_def binarySearch2_def o r)
qed

lemma at_refs:
  "orderedSpecialLines s = map Some refs \<Longrightarrow> 0 \<le> i \<Longrightarrow> i < int (length refs) \<Longrightarrow>
     at (orderedSpecialLines s) i = Some (refs ! nat i)"
  by (simp add: at_def)

lemma total_committed:
  assumes c: "committed s" and k: "consistent s"
    and b: "binarySearchOverSpecialLinesArray (heap s) (orderedSpecialLines s) ln = Inr r"
  shows "totalHeightUntilLineNumber ln s
           = Inr (searchValue (defaultLineHeight s) (specialLines s) ln r, s)"
proof -
  from k have nh: "noHoles s" by (auto simp: consistent_def)
  from noHoles_refs[OF nh] obtain refs where
    o: "orderedSpecialLines s = map Some refs" and
    rs: "specialLines s = map (\<lambda>r. heap s ! r) refs" by blast
  from search_consistent[OF k, of ln] b
  have f: "found (\<lambda>i. lineNumber (specialLines s ! nat i)) (int (length refs)) ln r"
    by (simp add: rs)
  from c have cs: "commit s = Inr s" by (simp add: committed_def commit_def)
  show ?thesis
  proof (cases "0 \<le> r")
    case True
    with f have "r < int (length refs)" by (simp add: found_def)
    with True show ?thesis
      using at_refs[OF o, of r] cs b
      by (simp add: totalHeightUntilLineNumber_def searchValue_def rs)
  next
    case False
    show ?thesis
    proof (cases "r = - 1")
      case True
      then show ?thesis using cs b
        by (simp add: totalHeightUntilLineNumber_def searchValue_def)
    next
      case neq: False
      with False f have "0 \<le> - (r + 1) - 1" "- (r + 1) - 1 < int (length refs)"
        by (auto simp: found_def)
      then show ?thesis
        using at_refs[OF o, of "- (r + 1) - 1"] cs b False neq
        by (simp add: totalHeightUntilLineNumber_def searchValue_def rs Let_def)
    qed
  qed
qed















text \<open>
  C2. In a committed consistent state, for a line number \<open>n \<ge> 0\<close>,
  \<open>totalHeightUntilLineNumber(n)\<close> returns, with \<open>r\<close> the result of the binary search:
  on a match (\<open>r \<ge> 0\<close>, the record at \<open>r\<close> is on line \<open>n\<close>) the prefix sum plus the
  maximum of that record; on a miss with the insertion point 0 (\<open>r = -1\<close>, every record
  is on a later line) \<open>defaultLineHeight * n\<close>; on a miss with an insertion point
  \<open>p > 0\<close> (\<open>r = -(p + 1)\<close>, the records before \<open>p\<close> are on earlier lines and the
  others on later ones) the prefix sum plus the maximum of the record at \<open>p - 1\<close> plus
  \<open>defaultLineHeight * (n - lineNumber)\<close> of that record, each operation being that
  of JavaScript numbers. With the default height 20 and one override on line 5 of height
  40 the total is 120 up to line 5 and 80 up to line 4.
\<close>

theorem totalHeightUntilLineNumber_by_search_result:
  "(\<forall>s n. committed s \<and> consistent s \<and> 0 \<le> n \<longrightarrow>
      (\<exists>r v. binarySearchOverSpecialLinesArray (heap s) (orderedSpecialLines s) n = Inr r
         \<and> totalHeightUntilLineNumber n s = Inr (v, s)
         \<and> (0 \<le> r \<longrightarrow>
              nat r < length (specialLines s)
              \<and> lineNumber (specialLines s ! nat r) = n
              \<and> v = add64 (prefixSum (specialLines s ! nat r))
                    (maximumSpecialHeight (specialLines s ! nat r)))
         \<and> (r = - 1 \<longrightarrow>
              (\<forall>i < length (specialLines s). n < lineNumber (specialLines s ! i))
              \<and> v = mul64 (defaultLineHeight s) n)
         \<and> (r < - 1 \<longrightarrow>
              nat (- (r + 1)) \<le> length (specialLines s)
              \<and> (\<forall>i < nat (- (r + 1)). lineNumber (specialLines s ! i) < n)
              \<and> (\<forall>i < length (specialLines s).
                    nat (- (r + 1)) \<le> i \<longrightarrow> n < lineNumber (specialLines s ! i))
              \<and> v = add64
                    (add64 (prefixSum (specialLines s ! (nat (- (r + 1)) - 1)))
                       (maximumSpecialHeight (specialLines s ! (nat (- (r + 1)) - 1))))
                    (mul64 (defaultLineHeight s)
                       (sub64 n (lineNumber (specialLines s ! (nat (- (r + 1)) - 1))))))))
   \<and> totalAfter 20 [InsertOrChange ''A'' 5 40] 5 = Inr 120
   \<and> totalAfter 20 [InsertOrChange ''A'' 5 40] 4 = Inr 80"
proof (intro conjI allI impI)
  fix s :: LineHeightManager and n :: int
  assume a: "committed s \<and> consistent s \<and> 0 \<le> n"
  then have c: "committed s" and k: "consistent s" by auto
  let ?recs = "specialLines s"
  from search_consistent[OF k, of n] obtain r where
    b: "binarySearchOverSpecialLinesArray (heap s) (orderedSpecialLines s) n = Inr r"
    and f: "found (\<lambda>i. lineNumber (?recs ! nat i)) (int (length ?recs)) n r"
    by blast
  let ?v = "searchValue (defaultLineHeight s) ?recs n r"
  note t = total_committed[OF c k b]
  have 1: "nat r < length ?recs \<and> lineNumber (?recs ! nat r) = n
           \<and> ?v = add64 (prefixSum (?recs ! nat r)) (maximumSpecialHeight (?recs ! nat r))"
    if "0 \<le> r"
    using that f by (auto simp: found_def searchValue_def)
  have below: "lineNumber (?recs ! i) < n" if "r < 0" "i < nat (- (r + 1))" for i
  proof -
    from that f have "\<forall>i. 0 \<le> i \<and> i < - (r + 1) \<longrightarrow> lineNumber (?recs ! nat i) < n"
      by (simp add: found_def)
    from this[rule_format, of "int i"] that show ?thesis by simp
  qed
  have above: "n < lineNumber (?recs ! i)" if "r < 0" "nat (- (r + 1)) \<le> i" "i < length ?recs" for i
  proof -
    from that f have "\<forall>i. - (r + 1) \<le> i \<and> i < int (length ?recs) \<longrightarrow> n < lineNumber (?recs ! nat i)"
      by (simp add: found_def)
    from this[rule_format, of "int i"] that show ?thesis by simp
  qed
  have 2: "(\<forall>i < length ?recs. n < lineNumber (?recs ! i)) \<and> ?v = mul64 (defaultLineHeight s) n"
    if "r = - 1"
    using that above by (auto simp: searchValue_def)
  have 3: "nat (- (r + 1)) \<le> length ?recs
           \<and> (\<forall>i < nat (- (r + 1)). lineNumber (?recs ! i) < n)
           \<and> (\<forall>i < length ?recs. nat (- (r + 1)) \<le> i \<longrightarrow> n < lineNumber (?recs ! i))
           \<and> ?v = add64
                    (add64 (prefixSum (?recs ! (nat (- (r + 1)) - 1)))
                       (maximumSpecialHeight (?recs ! (nat (- (r + 1)) - 1))))
                    (mul64 (defaultLineHeight s)
                       (sub64 n (lineNumber (?recs ! (nat (- (r + 1)) - 1)))))"
    if "r < - 1"
  proof -
    from that have e: "nat (- (r + 1) - 1) = nat (- (r + 1)) - 1" by simp
    from that f have "- (r + 1) \<le> int (length ?recs)" by (simp add: found_def)
    then have "nat (- (r + 1)) \<le> length ?recs" by linarith
    with that below above e show ?thesis by (simp add: searchValue_def)
  qed
  from b t 1 2 3
  show "\<exists>r v. binarySearchOverSpecialLinesArray (heap s) (orderedSpecialLines s) n = Inr r
         \<and> totalHeightUntilLineNumber n s = Inr (v, s)
         \<and> (0 \<le> r \<longrightarrow>
              nat r < length (specialLines s)
              \<and> lineNumber (specialLines s ! nat r) = n
              \<and> v = add64 (prefixSum (specialLines s ! nat r))
                    (maximumSpecialHeight (specialLines s ! nat r)))
         \<and> (r = - 1 \<longrightarrow>
              (\<forall>i < length (specialLines s). n < lineNumber (specialLines s ! i))
              \<and> v = mul64 (defaultLineHeight s) n)
         \<and> (r < - 1 \<longrightarrow>
              nat (- (r + 1)) \<le> length (specialLines s)
              \<and> (\<forall>i < nat (- (r + 1)). lineNumber (specialLines s ! i) < n)
              \<and> (\<forall>i < length (specialLines s).
                    nat (- (r + 1)) \<le> i \<longrightarrow> n < lineNumber (specialLines s ! i))
              \<and> v = add64
                    (add64 (prefixSum (specialLines s ! (nat (- (r + 1)) - 1)))
                       (maximumSpecialHeight (specialLines s ! (nat (- (r + 1)) - 1))))
                    (mul64 (defaultLineHeight s)
                       (sub64 n (lineNumber (specialLines s ! (nat (- (r + 1)) - 1))))))"
    by (intro exI[of _ r] exI[of _ ?v]) blast
next
  show "totalAfter 20 [InsertOrChange ''A'' 5 40] 5 = Inr 120" by code_simp
  show "totalAfter 20 [InsertOrChange ''A'' 5 40] 4 = Inr 80" by code_simp
qed

theorem totalHeightUntilLineNumber_by_search_result_witness:
  "\<exists>s. run [InsertOrChange ''A'' 5 40, InsertOrChange ''B'' 9 25, Commit] (newLineHeightManager 20) = Inr s
     \<and> committed s \<and> consistent s
     \<and> binarySearchOverSpecialLinesArray (heap s) (orderedSpecialLines s) 7 = Inr (- 2)
     \<and> totalHeightUntilLineNumber 7 s = Inr (160, s)
     \<and> 160 = add64 (add64 (prefixSum (specialLines s ! 0)) (maximumSpecialHeight (specialLines s ! 0)))
               (mul64 (defaultLineHeight s) (sub64 7 (lineNumber (specialLines s ! 0))))"
proof -
  have "case run [InsertOrChange ''A'' 5 40, InsertOrChange ''B'' 9 25, Commit] (newLineHeightManager 20) of
          Inl e \<Rightarrow> False
        | Inr s \<Rightarrow> committed s \<and> consistent s
            \<and> binarySearchOverSpecialLinesArray (heap s) (orderedSpecialLines s) 7 = Inr (- 2)
            \<and> map_sum id fst (totalHeightUntilLineNumber 7 s) = Inr 160"
    by code_simp
  then obtain s where
    s: "run [InsertOrChange ''A'' 5 40, InsertOrChange ''B'' 9 25, Commit] (newLineHeightManager 20) = Inr s"
    and c: "committed s" and k: "consistent s"
    and b: "binarySearchOverSpecialLinesArray (heap s) (orderedSpecialLines s) 7 = Inr (- 2)"
    and e: "map_sum id fst (totalHeightUntilLineNumber 7 s) = Inr 160"
    by (auto split: sum.splits)
  from totalHeightUntilLineNumber_by_search_result[THEN conjunct1, rule_format, of s 7] c k
  obtain r v where
    r: "binarySearchOverSpecialLinesArray (heap s) (orderedSpecialLines s) 7 = Inr r"
    and t: "totalHeightUntilLineNumber 7 s = Inr (v, s)"
    and v: "r < - 1 \<longrightarrow> v = add64 (add64 (prefixSum (specialLines s ! (nat (- (r + 1)) - 1)))
                          (maximumSpecialHeight (specialLines s ! (nat (- (r + 1)) - 1))))
                    (mul64 (defaultLineHeight s)
                       (sub64 7 (lineNumber (specialLines s ! (nat (- (r + 1)) - 1)))))"
    by auto
  from r b have "r = - 2" by simp
  moreover from t e have "v = 160" by simp
  ultimately show ?thesis using s c k b t v by (intro exI[of _ s]) simp
qed

section \<open>The total height and the heights of the lines\<close>






























section \<open>A pending override cannot be removed\<close>

lemma binarySearch2_loop_range:
  "binarySearch2_loop compareToKey low high = Inr r \<Longrightarrow> 0 \<le> low \<Longrightarrow> low \<le> high + 1 \<Longrightarrow>
     (if 0 \<le> r then low \<le> r \<and> r \<le> high else low \<le> - (r + 1) \<and> - (r + 1) \<le> high + 1)"
proof (induction compareToKey low high rule: binarySearch2_loop.induct)
  case (1 compareToKey low high)
  show ?case
  proof (cases "low \<le> high")
    case False
    with "1.prems" show ?thesis by (subst (asm) binarySearch2_loop.simps) auto
  next
    case True
    define mid where "mid = (low + high) div 2"
    have mid: "low \<le> mid" "mid \<le> high" using True by (auto simp: mid_def)
    show ?thesis
    proof (cases "compareToKey mid")
      case (Inl e)
      with True "1.prems"(1) show ?thesis
        by (subst (asm) binarySearch2_loop.simps) (simp add: mid_def)
    next
      case (Inr c)
      consider (lt) "c < 0" | (gt) "\<not> c < 0" "0 < c" | (eq) "c = 0" by linarith
      then show ?thesis
      proof cases
        case lt
        with True Inr "1.prems"(1) have "binarySearch2_loop compareToKey (mid + 1) high = Inr r"
          by (subst (asm) binarySearch2_loop.simps) (simp add: mid_def)
        from "1.IH"(1)[OF True mid_def Inr lt this] "1.prems"(2) mid show ?thesis
          by (auto split: if_splits)
      next
        case gt
        with True Inr "1.prems"(1) have "binarySearch2_loop compareToKey low (mid - 1) = Inr r"
          by (subst (asm) binarySearch2_loop.simps) (simp add: mid_def)
        from "1.IH"(2)[OF True mid_def Inr gt this] "1.prems"(2) mid show ?thesis
          by (auto split: if_splits)
      next
        case eq
        with True Inr "1.prems"(1) have "r = mid"
          by (subst (asm) binarySearch2_loop.simps) (simp add: mid_def)
        with mid "1.prems"(2) show ?thesis by simp
      qed
    qed
  qed
qed

lemma search_index_range:
  assumes "binarySearchOverSpecialLinesArray h ordered ln = Inr r"
  shows "0 \<le> (if 0 \<le> r then r else - (r + 1))
         \<and> (if 0 \<le> r then r else - (r + 1)) \<le> int (length ordered)"
  using binarySearch2_loop_range[OF assms[unfolded binarySearchOverSpecialLinesArray_def binarySearch2_def]]
  by (auto split: if_splits)

lemma splice_insert:
  "0 \<le> k \<Longrightarrow> k \<le> int (length xs) \<Longrightarrow> splice xs k 0 [x] = take (nat k) xs @ x # drop (nat k) xs"
  by (simp add: splice_def Let_def)

lemma covered_splice:
  assumes k: "0 \<le> k" "k \<le> int (length ordered)"
  shows "covered (splice ordered k 0 [Some r]) (math_min invalid k) r"
    and "covered ordered invalid q \<Longrightarrow> covered (splice ordered k 0 [Some r]) (math_min invalid k) q"
proof -
  let ?o = "splice ordered k 0 [Some r]"
  have o: "?o = take (nat k) ordered @ Some r # drop (nat k) ordered"
    using k by (rule splice_insert)
  have len: "length ?o = Suc (length ordered)" using k by (simp add: o)
  obtain m where m: "math_min invalid k = Finite m" "m \<le> k"
    by (cases invalid) auto
  have "?o ! nat k = Some r" using k by (simp add: o nth_append)
  moreover have "nat k < length ?o" using k len by simp
  ultimately show "covered ?o (math_min invalid k) r"
    unfolding covered_def using m k by (intro exI[of _ "nat k"] exI[of _ m]) simp
  show "covered ?o (math_min invalid k) q" if "covered ordered invalid q"
  proof -
    from that obtain j a where a: "invalid = Finite a" "a \<le> int j" "j < length ordered"
      "ordered ! j = Some q" by (auto simp: covered_def)
    from a(1) have mm: "math_min invalid k = Finite (min a k)" by simp
    show ?thesis
    proof (cases "j < nat k")
      case True
      then have "?o ! j = Some q" using a k by (simp add: o nth_append)
      moreover have "j < length ?o" using a len by simp
      ultimately show ?thesis
        unfolding covered_def using mm a(2) by (intro exI[of _ j] exI[of _ "min a k"]) simp
    next
      case False
      then have "?o ! Suc j = Some q" using a k by (simp add: o nth_append Suc_diff_le)
      moreover have "Suc j < length ?o" using a len by simp
      ultimately show ?thesis
        unfolding covered_def using mm a(2) by (intro exI[of _ "Suc j"] exI[of _ "min a k"]) simp
    qed
  qed
qed

lemma mergePending_covered:
  "mergePending h pending ordered invalid = Inr (ordered', invalid') \<Longrightarrow>
     (\<forall>r \<in> set pending. covered ordered' invalid' r)
     \<and> (\<forall>q. covered ordered invalid q \<longrightarrow> covered ordered' invalid' q)"
proof (induction pending arbitrary: ordered invalid)
  case Nil
  then show ?case by simp
next
  case (Cons r rest)
  from Cons.prems obtain si where
    si: "binarySearchOverSpecialLinesArray h ordered (lineNumber (h ! r)) = Inr si"
    by (auto split: sum.splits)
  define k where "k = (if 0 \<le> si then si else - (si + 1))"
  from search_index_range[OF si] have k: "0 \<le> k" "k \<le> int (length ordered)"
    by (simp_all add: k_def)
  from Cons.prems si
  have m: "mergePending h rest (splice ordered k 0 [Some r]) (math_min invalid k)
             = Inr (ordered', invalid')"
    by (simp add: k_def Let_def)
  note ih = Cons.IH[OF m]
  from ih covered_splice(1)[OF k, where r = r and invalid = invalid]
    covered_splice(2)[OF k, where r = r and invalid = invalid]
  show ?case by auto
qed


lemma sameInputs_refl [simp]: "sameInputs a a"
  by (simp add: sameInputs_def)

lemma sameInputs_trans: "sameInputs a b \<Longrightarrow> sameInputs b c \<Longrightarrow> sameInputs a c"
  by (simp add: sameInputs_def)

lemma sameInputs_modify:
  "(\<And>l. sameInputs (f l) l) \<Longrightarrow> sameInputs (modify h r f ! q) (h ! q)"
  by (simp add: modify_nth)

lemma startNewRun_inputs:
  assumes "startNewRun d ordered i r previous h = Inr h'"
  shows "length h' = length h \<and> (\<forall>q. sameInputs (h' ! q) (h ! q))"
proof -
  from assms obtain m ps where
    h': "h' = modify (modify h r (\<lambda>l. l\<lparr>maximumSpecialHeight := m\<rparr>)) r (\<lambda>l. l\<lparr>prefixSum := ps\<rparr>)"
    by (auto simp: startNewRun_def Let_def split: sum.splits)
  have "sameInputs (h' ! q) (h ! q)" for q
    unfolding h'
    by (rule sameInputs_trans[OF sameInputs_modify sameInputs_modify])
       (simp_all add: sameInputs_def)
  then show ?thesis by (simp add: h')
qed

lemma recomputeSpecialLine_inputs:
  assumes "recomputeSpecialLine d ordered i r previous h = Inr h'"
  shows "length h' = length h \<and> (\<forall>q. sameInputs (h' ! q) (h ! q))"
proof (cases "\<exists>p. previous = Some p \<and> lineNumber (h ! p) = lineNumber (h ! r)")
  case True
  with assms obtain m ps where
    h': "h' = modify (modify h r (\<lambda>l. l\<lparr>maximumSpecialHeight := m\<rparr>)) r (\<lambda>l. l\<lparr>prefixSum := ps\<rparr>)"
    by (auto simp: recomputeSpecialLine_def Let_def)
  have "sameInputs (h' ! q) (h ! q)" for q
    unfolding h'
    by (rule sameInputs_trans[OF sameInputs_modify sameInputs_modify])
       (simp_all add: sameInputs_def)
  then show ?thesis by (simp add: h')
next
  case False
  with assms have "startNewRun d ordered i r previous h = Inr h'"
    by (auto simp: recomputeSpecialLine_def split: option.splits if_splits)
  then show ?thesis by (rule startNewRun_inputs)
qed

lemma commitLoop_step:
  assumes "commitLoop d ordered i n h newOrdered newMap = Inr res"
  shows "(\<not> i < int (length ordered) \<and> res = (h, newOrdered, newMap))
         \<or> (\<exists>r. i < int (length ordered) \<and> at ordered i = Some r \<and> deleted (h ! r)
               \<and> commitLoop d ordered (i + 1) (n + 1) h newOrdered newMap = Inr res)
         \<or> (\<exists>r h2. i < int (length ordered) \<and> at ordered i = Some r \<and> \<not> deleted (h ! r)
               \<and> recomputeSpecialLine d ordered i r (if i > 0 then at ordered (i - 1) else None)
                     (modify h r (\<lambda>l. l\<lparr>index := i - n\<rparr>)) = Inr h2
               \<and> commitLoop d ordered (i + 1) n h2 (newOrdered @ [Some r])
                     (newMap(decorationId (h2 ! r) \<mapsto> r)) = Inr res)"
  using assms
  by (subst (asm) commitLoop.simps) (auto simp: Let_def split: if_splits option.splits sum.splits)

lemma commitLoop_inputs:
  "commitLoop d ordered i n h newOrdered newMap = Inr (h', newOrdered', newMap') \<Longrightarrow>
     length h' = length h \<and> (\<forall>q. sameInputs (h' ! q) (h ! q))"
proof (induction d ordered i n h newOrdered newMap rule: commitLoop.induct)
  case (1 d ordered i n h newOrdered newMap)
  from commitLoop_step[OF "1.prems"]
  consider (stop) "\<not> i < int (length ordered)" "(h', newOrdered', newMap') = (h, newOrdered, newMap)"
    | (skip) r where "i < int (length ordered)" "at ordered i = Some r" "deleted (h ! r)"
        "commitLoop d ordered (i + 1) (n + 1) h newOrdered newMap = Inr (h', newOrdered', newMap')"
    | (keep) r h2 where "i < int (length ordered)" "at ordered i = Some r" "\<not> deleted (h ! r)"
        "recomputeSpecialLine d ordered i r (if i > 0 then at ordered (i - 1) else None)
                     (modify h r (\<lambda>l. l\<lparr>index := i - n\<rparr>)) = Inr h2"
        "commitLoop d ordered (i + 1) n h2 (newOrdered @ [Some r])
                     (newMap(decorationId (h2 ! r) \<mapsto> r)) = Inr (h', newOrdered', newMap')"
    by blast
  then show ?case
  proof cases
    case stop
    then show ?thesis by simp
  next
    case skip
    from "1.IH"(1)[OF skip] show ?thesis .
  next
    case keep
    from "1.IH"(2)[OF keep(1,2,3) refl refl keep(4,5)]
    have a: "length h' = length h2" "\<And>q. sameInputs (h' ! q) (h2 ! q)" by auto
    from recomputeSpecialLine_inputs[OF keep(4)]
    have b: "length h2 = length h"
      "\<And>q. sameInputs (h2 ! q) (modify h r (\<lambda>l. l\<lparr>index := i - n\<rparr>) ! q)" by auto
    have c: "sameInputs (modify h r (\<lambda>l. l\<lparr>index := i - n\<rparr>) ! q) (h ! q)" for q
      by (rule sameInputs_modify) (simp add: sameInputs_def)
    have "sameInputs (h' ! q) (h ! q)" for q
      by (rule sameInputs_trans[OF a(2) sameInputs_trans[OF b(2) c]])
    with a(1) b(1) show ?thesis by simp
  qed
qed

lemma at_nth: "j < length xs \<Longrightarrow> at xs (int j) = xs ! j"
  by (simp add: at_def)

lemma commitLoop_keeps:
  "commitLoop d ordered i n h newOrdered newMap = Inr (h', newOrdered', newMap') \<Longrightarrow>
     set newOrdered \<subseteq> set newOrdered'
     \<and> (\<forall>j r. i \<le> int j \<and> j < length ordered \<and> ordered ! j = Some r \<and> \<not> deleted (h ! r)
            \<longrightarrow> Some r \<in> set newOrdered')"
proof (induction d ordered i n h newOrdered newMap rule: commitLoop.induct)
  case (1 d ordered i n h newOrdered newMap)
  from commitLoop_step[OF "1.prems"]
  consider (stop) "\<not> i < int (length ordered)" "(h', newOrdered', newMap') = (h, newOrdered, newMap)"
    | (skip) r where "i < int (length ordered)" "at ordered i = Some r" "deleted (h ! r)"
        "commitLoop d ordered (i + 1) (n + 1) h newOrdered newMap = Inr (h', newOrdered', newMap')"
    | (keep) r h2 where "i < int (length ordered)" "at ordered i = Some r" "\<not> deleted (h ! r)"
        "recomputeSpecialLine d ordered i r (if i > 0 then at ordered (i - 1) else None)
                     (modify h r (\<lambda>l. l\<lparr>index := i - n\<rparr>)) = Inr h2"
        "commitLoop d ordered (i + 1) n h2 (newOrdered @ [Some r])
                     (newMap(decorationId (h2 ! r) \<mapsto> r)) = Inr (h', newOrdered', newMap')"
    by blast
  then show ?case
  proof cases
    case stop
    then show ?thesis by auto
  next
    case skip
    note ih = "1.IH"(1)[OF skip]
    show ?thesis
    proof (intro conjI allI impI)
      from ih show "set newOrdered \<subseteq> set newOrdered'" by simp
      fix j q
      assume a: "i \<le> int j \<and> j < length ordered \<and> ordered ! j = Some q \<and> \<not> deleted (h ! q)"
      have "int j \<noteq> i"
      proof
        assume "int j = i"
        with a skip(2) at_nth[of j ordered] have "q = r" by simp
        with a skip(3) show False by simp
      qed
      with a have "i + 1 \<le> int j" by simp
      with a ih show "Some q \<in> set newOrdered'" by blast
    qed
  next
    case keep
    note ih = "1.IH"(2)[OF keep(1,2,3) refl refl keep(4,5)]
    from recomputeSpecialLine_inputs[OF keep(4)]
    have b: "\<And>q. sameInputs (h2 ! q) (modify h r (\<lambda>l. l\<lparr>index := i - n\<rparr>) ! q)" by auto
    have c: "sameInputs (modify h r (\<lambda>l. l\<lparr>index := i - n\<rparr>) ! q) (h ! q)" for q
      by (rule sameInputs_modify) (simp add: sameInputs_def)
    have del: "deleted (h2 ! q) = deleted (h ! q)" for q
      using sameInputs_trans[OF b[of q] c[of q]] by (simp add: sameInputs_def)
    show ?thesis
    proof (intro conjI allI impI)
      from ih show "set newOrdered \<subseteq> set newOrdered'" by simp
      fix j q
      assume a: "i \<le> int j \<and> j < length ordered \<and> ordered ! j = Some q \<and> \<not> deleted (h ! q)"
      show "Some q \<in> set newOrdered'"
      proof (cases "int j = i")
        case True
        with a keep(2) at_nth[of j ordered] have "q = r" by simp
        with ih show ?thesis by auto
      next
        case False
        with a have "i + 1 \<le> int j" by simp
        with a ih del[of q] show ?thesis by blast
      qed
    qed
  qed
qed


lemma commit_keeps_pending:
  assumes c: "commit s = Inr s2" and p: "hasPending s"
    and r: "r \<in> set (pendingSpecialLinesToInsert s)" and nd: "\<not> deleted (heap s ! r)"
  shows "Some r \<in> set (orderedSpecialLines s2) \<and> sameInputs (heap s2 ! r) (heap s ! r)"
proof -
  from c p obtain ordered invalid newOrdered h newOrdered' newMap where
    m: "mergePending (heap s) (pendingSpecialLinesToInsert s) (orderedSpecialLines s)
          (invalidIndex s) = Inr (ordered, invalid)"
    and cp: "copyPrefix ordered invalid = Inr newOrdered"
    and l: "commitLoop (defaultLineHeight s) ordered
              (case invalid of Finite k \<Rightarrow> k | Infinity \<Rightarrow> 0) 0 (heap s) newOrdered
              (decorationIDToSpecialLine s) = Inr (h, newOrdered', newMap)"
    and s2: "orderedSpecialLines s2 = newOrdered'" "heap s2 = h"
    by (auto simp: commit_def split: sum.splits prod.splits)
  from mergePending_covered[OF m] r have "covered ordered invalid r" by simp
  then obtain j k where k: "invalid = Finite k" "k \<le> int j" "j < length ordered"
    "ordered ! j = Some r" by (auto simp: covered_def)
  from commitLoop_keeps[OF l] k nd have "Some r \<in> set newOrdered'" by auto
  moreover from commitLoop_inputs[OF l] have "sameInputs (h ! r) (heap s ! r)" by simp
  ultimately show ?thesis using s2 by simp
qed

text \<open>
  Without holes in the ordered array and with an invalid index that is not negative,
  the commit of a state with a pending record returns.
\<close>

lemma binarySearch2_loop_returns:
  "(\<And>i. low \<le> i \<Longrightarrow> i \<le> high \<Longrightarrow> \<exists>c. compareToKey i = Inr c) \<Longrightarrow>
     \<exists>r. binarySearch2_loop compareToKey low high = Inr r"
proof (induction compareToKey low high rule: binarySearch2_loop.induct)
  case (1 compareToKey low high)
  show ?case
  proof (cases "low \<le> high")
    case False
    then show ?thesis by (subst binarySearch2_loop.simps) simp
  next
    case True
    define mid where "mid = (low + high) div 2"
    have mid: "low \<le> mid" "mid \<le> high" using True by (auto simp: mid_def)
    from "1.prems"[OF mid] obtain c where c: "compareToKey mid = Inr c" by blast
    consider (lt) "c < 0" | (gt) "\<not> c < 0" "0 < c" | (eq) "c = 0" by linarith
    then show ?thesis
    proof cases
      case lt
      have "\<exists>r. binarySearch2_loop compareToKey (mid + 1) high = Inr r"
        by (rule "1.IH"(1)[OF True mid_def c lt]) (use mid "1.prems" in auto)
      with True c lt show ?thesis
        by (subst binarySearch2_loop.simps) (simp add: mid_def)
    next
      case gt
      have "\<exists>r. binarySearch2_loop compareToKey low (mid - 1) = Inr r"
        by (rule "1.IH"(2)[OF True mid_def c gt]) (use mid "1.prems" in auto)
      with True c gt show ?thesis
        by (subst binarySearch2_loop.simps) (simp add: mid_def)
    next
      case eq
      with True c show ?thesis
        by (subst binarySearch2_loop.simps) (simp add: mid_def)
    qed
  qed
qed

lemma at_noHoles:
  "list_all (\<lambda>x. x \<noteq> None) xs \<Longrightarrow> 0 \<le> i \<Longrightarrow> i < int (length xs) \<Longrightarrow> \<exists>r. at xs i = Some r"
  by (auto simp: at_def list_all_length)

lemma search_returns:
  assumes "list_all (\<lambda>x. x \<noteq> None) ordered"
  shows "\<exists>r. binarySearchOverSpecialLinesArray h ordered ln = Inr r"
  unfolding binarySearchOverSpecialLinesArray_def binarySearch2_def
proof (rule binarySearch2_loop_returns)
  fix i :: int assume "0 \<le> i" "i \<le> int (length ordered) - 1"
  with at_noHoles[OF assms, of i] obtain r where "at ordered i = Some r" by auto
  then show "\<exists>c. compareLine h ordered ln i = Inr c" by (simp add: compareLine_def)
qed

lemma maximumLoop_returns:
  "list_all (\<lambda>x. x \<noteq> None) ordered \<Longrightarrow> 0 \<le> j \<Longrightarrow> \<exists>m. maximumLoop h ordered ln j a = Inr m"
proof (induction h ordered ln j a rule: maximumLoop.induct)
  case (1 h ordered ln j a)
  show ?case
  proof (cases "j < int (length ordered)")
    case False
    then show ?thesis by (subst maximumLoop.simps) simp
  next
    case True
    with at_noHoles[OF "1.prems"(1,2)] obtain r where r: "at ordered j = Some r" by auto
    show ?thesis
    proof (cases "deleted (h ! r)")
      case d: True
      from "1.IH"(1)[OF True r d "1.prems"(1)] "1.prems"(2)
      obtain m where "maximumLoop h ordered ln (j + 1) a = Inr m" by auto
      with True r d show ?thesis by (subst maximumLoop.simps) simp
    next
      case d: False
      show ?thesis
      proof (cases "lineNumber (h ! r) \<noteq> ln")
        case ne: True
        with True r d show ?thesis by (subst maximumLoop.simps) simp
      next
        case ne: False
        from "1.IH"(2)[OF True r d ne "1.prems"(1)] "1.prems"(2)
        obtain m where "maximumLoop h ordered ln (j + 1) (max a (specialHeight (h ! r))) = Inr m"
          by auto
        with True r d ne show ?thesis by (subst maximumLoop.simps) simp
      qed
    qed
  qed
qed

lemma recomputeSpecialLine_returns:
  assumes "list_all (\<lambda>x. x \<noteq> None) ordered" "0 \<le> i"
  shows "\<exists>h2. recomputeSpecialLine d ordered i r previous h = Inr h2"
proof -
  have "\<exists>h2. startNewRun d ordered i r p h = Inr h2" for p
    using maximumLoop_returns[OF assms, of h "lineNumber (h ! r)" "specialHeight (h ! r)"]
    by (auto simp: startNewRun_def Let_def)
  then show ?thesis
    by (auto simp: recomputeSpecialLine_def Let_def split: option.splits)
qed

lemma commitLoop_returns:
  "list_all (\<lambda>x. x \<noteq> None) ordered \<Longrightarrow> 0 \<le> i \<Longrightarrow>
     \<exists>res. commitLoop d ordered i n h newOrdered newMap = Inr res"
proof (induction d ordered i n h newOrdered newMap rule: commitLoop.induct)
  case (1 d ordered i n h newOrdered newMap)
  show ?case
  proof (cases "i < int (length ordered)")
    case False
    then show ?thesis by (subst commitLoop.simps) simp
  next
    case True
    with at_noHoles[OF "1.prems"(1,2)] obtain r where r: "at ordered i = Some r" by auto
    show ?thesis
    proof (cases "deleted (h ! r)")
      case d: True
      have "0 \<le> i + 1" using "1.prems"(2) by simp
      from "1.IH"(1)[OF True r d "1.prems"(1) this]
      have "\<exists>res. commitLoop d ordered (i + 1) (n + 1) h newOrdered newMap = Inr res" .
      with True r d show ?thesis by (subst commitLoop.simps) simp
    next
      case d: False
      let ?p = "if i > 0 then at ordered (i - 1) else None"
      let ?h1 = "modify h r (\<lambda>l. l\<lparr>index := i - n\<rparr>)"
      from recomputeSpecialLine_returns[OF "1.prems", of d r ?p ?h1]
      obtain h2 where h2: "recomputeSpecialLine d ordered i r ?p ?h1 = Inr h2" by blast
      have "0 \<le> i + 1" using "1.prems"(2) by simp
      from "1.IH"(2)[OF True r d refl refl h2 "1.prems"(1) this]
      have "\<exists>res. commitLoop d ordered (i + 1) n h2 (newOrdered @ [Some r])
                         (newMap(decorationId (h2 ! r) \<mapsto> r)) = Inr res" .
      with True r d h2 show ?thesis by (subst commitLoop.simps) (simp add: Let_def)
    qed
  qed
qed

lemma math_min_nonNegative: "nonNegative invalid \<Longrightarrow> 0 \<le> k \<Longrightarrow> nonNegative (math_min invalid k)"
  by (cases invalid) auto

lemma mergePending_returns:
  "list_all (\<lambda>x. x \<noteq> None) ordered \<Longrightarrow> nonNegative invalid \<Longrightarrow>
     \<exists>ordered' invalid'. mergePending h pending ordered invalid = Inr (ordered', invalid')
        \<and> list_all (\<lambda>x. x \<noteq> None) ordered' \<and> nonNegative invalid'
        \<and> (pending \<noteq> [] \<longrightarrow> invalid' \<noteq> Infinity)
        \<and> (invalid \<noteq> Infinity \<longrightarrow> invalid' \<noteq> Infinity)"
proof (induction pending arbitrary: ordered invalid)
  case Nil
  then show ?case by simp
next
  case (Cons r rest)
  from search_returns[OF Cons.prems(1)] obtain si where
    si: "binarySearchOverSpecialLinesArray h ordered (lineNumber (h ! r)) = Inr si" by blast
  define k where "k = (if 0 \<le> si then si else - (si + 1))"
  from search_index_range[OF si] have k: "0 \<le> k" "k \<le> int (length ordered)"
    by (simp_all add: k_def)
  have nh: "list_all (\<lambda>x. x \<noteq> None) (splice ordered k 0 [Some r])"
    using Cons.prems(1) k
    by (auto simp: splice_insert list_all_iff dest: in_set_takeD in_set_dropD)
  have fin: "math_min invalid k \<noteq> Infinity" by (cases invalid) auto
  from Cons.IH[OF nh math_min_nonNegative[OF Cons.prems(2) k(1)]] fin
  obtain ordered' invalid' where
    "mergePending h rest (splice ordered k 0 [Some r]) (math_min invalid k) = Inr (ordered', invalid')"
    "list_all (\<lambda>x. x \<noteq> None) ordered'" "nonNegative invalid'" "invalid' \<noteq> Infinity"
    by blast
  with si show ?case by (simp add: k_def Let_def)
qed

lemma commit_returns:
  assumes nh: "noHoles s" and nn: "nonNegative (invalidIndex s)"
    and p: "pendingSpecialLinesToInsert s \<noteq> [] \<or> invalidIndex s \<noteq> Infinity"
  shows "\<exists>s2. commit s = Inr s2"
proof (cases "hasPending s")
  case False
  then show ?thesis by (simp add: commit_def)
next
  case True
  from mergePending_returns[OF nh[unfolded noHoles_def] nn,
      of "heap s" "pendingSpecialLinesToInsert s"] p
  obtain ordered invalid where
    m: "mergePending (heap s) (pendingSpecialLinesToInsert s) (orderedSpecialLines s)
          (invalidIndex s) = Inr (ordered, invalid)"
    and o: "list_all (\<lambda>x. x \<noteq> None) ordered" and i: "nonNegative invalid" "invalid \<noteq> Infinity"
    by blast
  from i obtain k where k: "invalid = Finite k" "0 \<le> k" by (cases invalid) auto
  then obtain newOrdered where cp: "copyPrefix ordered invalid = Inr newOrdered"
    by (simp add: copyPrefix_def)
  from commitLoop_returns[OF o k(2), of "defaultLineHeight s" 0 "heap s" newOrdered
      "decorationIDToSpecialLine s"]
  obtain res where "commitLoop (defaultLineHeight s) ordered k 0 (heap s) newOrdered
      (decorationIDToSpecialLine s) = Inr res" by blast
  with True m cp k show ?thesis
    by (cases res) (simp add: commit_def)
qed

text \<open>
  C9. When \<open>insertOrChangeSpecialLineHeightUsingDecoration(id, L, H)\<close> is called with an
  \<open>id\<close> that the map does not hold, and \<open>removeSpecialLineUsingDecoration(id)\<close> before
  any commit, the removal changes nothing: the new record is in the pending queue and the
  map still does not hold \<open>id\<close>. Whenever the next commit returns, the record is in
  the ordered array, not deleted, with the line \<open>L\<close> and the height \<open>H\<close>; and the
  commit does return when the ordered array has no hole and the invalid index is not
  negative. On a new
  manager with the default height 20, after the insert of \<open>A\<close> (line 5, height 40) and
  the removal of \<open>A\<close>, \<open>heightForLineNumber(5)\<close> returns 40.
\<close>

theorem removal_of_pending_override_has_no_effect:
  "(\<forall>s did ln lh. decorationIDToSpecialLine s did = None \<longrightarrow>
      removeSpecialLineUsingDecoration did
          (insertOrChangeSpecialLineHeightUsingDecoration did ln lh s)
        = insertOrChangeSpecialLineHeightUsingDecoration did ln lh s
      \<and> length (heap s)
          \<in> set (pendingSpecialLinesToInsert (insertOrChangeSpecialLineHeightUsingDecoration did ln lh s))
      \<and> decorationIDToSpecialLine (insertOrChangeSpecialLineHeightUsingDecoration did ln lh s) did
          = None
      \<and> (\<forall>s2. commit (removeSpecialLineUsingDecoration did
                    (insertOrChangeSpecialLineHeightUsingDecoration did ln lh s)) = Inr s2 \<longrightarrow>
            Some (length (heap s)) \<in> set (orderedSpecialLines s2)
            \<and> decorationId (heap s2 ! length (heap s)) = did
            \<and> lineNumber (heap s2 ! length (heap s)) = ln
            \<and> specialHeight (heap s2 ! length (heap s)) = lh
            \<and> \<not> deleted (heap s2 ! length (heap s)))
      \<and> (noHoles s \<and> nonNegative (invalidIndex s) \<longrightarrow>
            (\<exists>s2. commit (removeSpecialLineUsingDecoration did
                    (insertOrChangeSpecialLineHeightUsingDecoration did ln lh s)) = Inr s2)))
   \<and> heightAfter 20 [InsertOrChange ''A'' 5 40, Remove ''A''] 5 = Inr 40"
proof (intro conjI allI impI)
  fix s :: LineHeightManager and did :: string and ln lh :: int
  assume n: "decorationIDToSpecialLine s did = None"
  let ?s1 = "insertOrChangeSpecialLineHeightUsingDecoration did ln lh s"
  let ?r = "length (heap s)"
  from n have s1: "?s1 = s\<lparr>heap := heap s @ [newSpecialLine did (- 1) ln lh 0],
       pendingSpecialLinesToInsert := pendingSpecialLinesToInsert s @ [?r],
       hasPending := True\<rparr>"
    by (simp add: insertOrChangeSpecialLineHeightUsingDecoration_def insertSpecialLineHeight_def)
  from n show m: "decorationIDToSpecialLine ?s1 did = None" by (simp add: s1)
  then show noop: "removeSpecialLineUsingDecoration did ?s1 = ?s1"
    by (simp add: removeSpecialLineUsingDecoration_def)
  show pend: "?r \<in> set (pendingSpecialLinesToInsert ?s1)" by (simp add: s1)
  have new: "heap ?s1 ! ?r = newSpecialLine did (- 1) ln lh 0" by (simp add: s1)
  {
    assume "noHoles s \<and> nonNegative (invalidIndex s)"
    then have "noHoles ?s1" "nonNegative (invalidIndex ?s1)"
      "pendingSpecialLinesToInsert ?s1 \<noteq> [] \<or> invalidIndex ?s1 \<noteq> Infinity"
      by (simp_all add: s1 noHoles_def)
    from commit_returns[OF this] noop
    show "\<exists>s2. commit (removeSpecialLineUsingDecoration did ?s1) = Inr s2" by simp
  }
  fix s2
  assume "commit (removeSpecialLineUsingDecoration did ?s1) = Inr s2"
  with noop have c: "commit ?s1 = Inr s2" by simp
  have "hasPending ?s1" by (simp add: s1)
  from commit_keeps_pending[OF c this pend] new
  have k: "Some ?r \<in> set (orderedSpecialLines s2)"
    "sameInputs (heap s2 ! ?r) (newSpecialLine did (- 1) ln lh 0)"
    by (simp_all add: newSpecialLine_def)
  from k(1) show "Some ?r \<in> set (orderedSpecialLines s2)" .
  from k(2) show "decorationId (heap s2 ! ?r) = did" "lineNumber (heap s2 ! ?r) = ln"
    "specialHeight (heap s2 ! ?r) = lh" "\<not> deleted (heap s2 ! ?r)"
    by (simp_all add: sameInputs_def newSpecialLine_def)
next
  show "heightAfter 20 [InsertOrChange ''A'' 5 40, Remove ''A''] 5 = Inr 40" by code_simp
qed

theorem removal_of_pending_override_has_no_effect_witness:
  "decorationIDToSpecialLine (newLineHeightManager 20) ''A'' = None
   \<and> noHoles (newLineHeightManager 20)
   \<and> nonNegative (invalidIndex (newLineHeightManager 20))
   \<and> removeSpecialLineUsingDecoration ''A''
          (insertOrChangeSpecialLineHeightUsingDecoration ''A'' 5 40 (newLineHeightManager 20))
        = insertOrChangeSpecialLineHeightUsingDecoration ''A'' 5 40 (newLineHeightManager 20)
   \<and> (\<exists>s2. commit (removeSpecialLineUsingDecoration ''A''
                    (insertOrChangeSpecialLineHeightUsingDecoration ''A'' 5 40
                       (newLineHeightManager 20))) = Inr s2
          \<and> orderedSpecialLines s2 = [Some 0]
          \<and> lineNumber (heap s2 ! 0) = 5 \<and> specialHeight (heap s2 ! 0) = 40
          \<and> \<not> deleted (heap s2 ! 0))"
proof -
  let ?s = "newLineHeightManager 20"
  let ?s1 = "insertOrChangeSpecialLineHeightUsingDecoration ''A'' 5 40 ?s"
  have n: "decorationIDToSpecialLine ?s ''A'' = None" by (simp add: newLineHeightManager_def)
  have h: "length (heap ?s) = 0" by (simp add: newLineHeightManager_def)
  note th = removal_of_pending_override_has_no_effect[THEN conjunct1, rule_format, OF n, of 5 40]
  from th have noop: "removeSpecialLineUsingDecoration ''A'' ?s1 = ?s1" by simp
  have "case commit (removeSpecialLineUsingDecoration ''A'' ?s1) of
          Inl e \<Rightarrow> False | Inr s2 \<Rightarrow> orderedSpecialLines s2 = [Some 0]"
    by code_simp
  then obtain s2 where s2: "commit (removeSpecialLineUsingDecoration ''A'' ?s1) = Inr s2"
    "orderedSpecialLines s2 = [Some 0]" by (auto split: sum.splits)
  from th s2(1) h have "lineNumber (heap s2 ! 0) = 5 \<and> specialHeight (heap s2 ! 0) = 40
          \<and> \<not> deleted (heap s2 ! 0)" by simp
  moreover have "noHoles ?s" "nonNegative (invalidIndex ?s)"
    by (simp_all add: newLineHeightManager_def noHoles_def)
  ultimately show ?thesis using n noop s2 by blast
qed

end
